theory Spec2Isabelle
  imports Complex_Main "HOL-Library.Sublist" "HOL-Library.Product_Lexorder" "HOL-Library.Multiset"
begin

section \<open>Go strings: bytes, UTF-8 decoding and the \<open>strings\<close> helpers\<close>

text \<open>
  A Go \<open>string\<close> is a sequence of bytes; it is modelled by \<^typ>\<open>string\<close> (a list of
  8-bit characters), so \<^const>\<open>length\<close> is Go's \<open>len\<close> and offsets are byte offsets.
  \<open>range\<close> over a string, \<open>utf8.ValidString\<close>, \<open>strings.ToValidUTF8\<close> and
  \<open>strings.TrimSpace\<close> see the string as UTF-8: \<open>DecodeRuneInString\<close> follows
  \<open>utf8.DecodeRuneInString\<close> (an invalid or truncated sequence decodes to
  \<open>RuneError\<close> with width 1), \<open>EncodeRune\<close> follows \<open>utf8.AppendRune\<close>, which is what
  \<open>strings.Builder.WriteRune\<close> appends.
\<close>

type_synonym rune = nat

definition RuneError :: rune where
  "RuneError = 65533"

fun DecodeRuneInString :: "string \<Rightarrow> rune \<times> nat" where
  "DecodeRuneInString [] = (RuneError, 0)"
| "DecodeRuneInString (c0 # cs) =
     (let s0 = (of_char c0 :: nat) in
      if s0 < 128 then (s0, 1)
      else if s0 < 194 \<or> 244 < s0 then (RuneError, 1)
      else
        let sz = (if s0 < 224 then 2 else if s0 < 240 then 3 else (4::nat));
            lo = (if s0 = 224 then 160 else if s0 = 240 then 144 else (128::nat));
            hi = (if s0 = 237 then 159 else if s0 = 244 then 143 else (191::nat))
        in if length cs + 1 < sz then (RuneError, 1)
           else
             let s1 = (of_char (cs ! 0) :: nat) in
             if s1 < lo \<or> hi < s1 then (RuneError, 1)
             else if sz \<le> 2 then ((s0 mod 32) * 64 + s1 mod 64, 2)
             else
               let s2 = (of_char (cs ! 1) :: nat) in
               if s2 < 128 \<or> 191 < s2 then (RuneError, 1)
               else if sz \<le> 3 then ((s0 mod 16) * 4096 + (s1 mod 64) * 64 + s2 mod 64, 3)
               else
                 let s3 = (of_char (cs ! 2) :: nat) in
                 if s3 < 128 \<or> 191 < s3 then (RuneError, 1)
                 else ((s0 mod 8) * 262144 + (s1 mod 64) * 4096 + (s2 mod 64) * 64 + s3 mod 64, 4))"

definition EncodeRune :: "rune \<Rightarrow> string" where
  "EncodeRune r =
     (if r \<le> 127 then [char_of r]
      else if r \<le> 2047 then [char_of (192 + r div 64), char_of (128 + r mod 64)]
      else if 1114111 < r \<or> (55296 \<le> r \<and> r \<le> 57343) then
        [char_of (239::nat), char_of (191::nat), char_of (189::nat)]
      else if r \<le> 65535 then
        [char_of (224 + r div 4096), char_of (128 + (r div 64) mod 64), char_of (128 + r mod 64)]
      else
        [char_of (240 + r div 262144), char_of (128 + (r div 4096) mod 64),
         char_of (128 + (r div 64) mod 64), char_of (128 + r mod 64)])"

lemma decode_width_pos: "0 < snd (DecodeRuneInString (c # cs))"
  by (simp add: Let_def)

function runes :: "string \<Rightarrow> (rune \<times> string) list" where
  "runes [] = []"
| "runes (c # cs) =
     (let w = snd (DecodeRuneInString (c # cs))
      in (fst (DecodeRuneInString (c # cs)), take w (c # cs)) # runes (drop w (c # cs)))"
  by pat_completeness auto
termination
proof (relation "measure length")
  show "wf (measure length)" by simp
next
  fix c cs w
  assume "w = snd (DecodeRuneInString (c # cs))"
  then have "0 < w" using decode_width_pos by simp
  then show "(drop w (c # cs), c # cs) \<in> measure length" by simp
qed


definition invalidUnit :: "rune \<times> string \<Rightarrow> bool" where
  "invalidUnit u = (fst u = RuneError \<and> length (snd u) = 1)"

definition ValidString :: "string \<Rightarrow> bool" where
  "ValidString s = list_all (\<lambda>u. \<not> invalidUnit u) (runes s)"

definition ToValidUTF8 :: "string \<Rightarrow> string" where
  "ToValidUTF8 s = concat (map snd (filter (\<lambda>u. \<not> invalidUnit u) (runes s)))"

definition isSpace :: "rune \<Rightarrow> bool" where
  "isSpace r = (r = 9 \<or> r = 10 \<or> r = 11 \<or> r = 12 \<or> r = 13 \<or> r = 32 \<or> r = 133 \<or> r = 160
     \<or> r = 5760 \<or> (8192 \<le> r \<and> r \<le> 8202) \<or> r = 8232 \<or> r = 8233 \<or> r = 8239
     \<or> r = 8287 \<or> r = 12288)"

definition TrimSpace :: "string \<Rightarrow> string" where
  "TrimSpace s =
     concat (map snd (rev (dropWhile (\<lambda>u. isSpace (fst u))
       (rev (dropWhile (\<lambda>u. isSpace (fst u)) (runes s))))))"

definition keepRune :: "rune \<Rightarrow> bool" where
  "keepRune r = (r = 10 \<or> r = 9 \<or> (32 \<le> r \<and> r \<noteq> 127))"

definition cleanContent :: "string \<Rightarrow> string" where
  "cleanContent content0 =
     (let content = (if \<not> ValidString content0 then ToValidUTF8 content0 else content0);
          cleaned = concat (map (\<lambda>u. if keepRune (fst u) then EncodeRune (fst u) else []) (runes content))
      in TrimSpace cleaned)"

definition vunit :: "rune \<times> string \<Rightarrow> bool" where
  "vunit u = (snd u \<noteq> [] \<and> EncodeRune (fst u) = snd u \<and> \<not> invalidUnit u
     \<and> (\<forall>rest. DecodeRuneInString (snd u @ rest) = (fst u, length (snd u))))"

lemma of_char_lt: "(of_char (c::char) :: nat) < 256"
  by (metis of_char_mod_256 mod_less_divisor zero_less_numeral)


lemma char_of_eqI: "n = (of_char c :: nat) \<Longrightarrow> char_of n = c"
  by simp

lemma enc1: "(of_char c :: nat) < 128 \<Longrightarrow> EncodeRune (of_char c) = [c]"
  by (simp add: EncodeRune_def)


lemma dm: fixes x k n :: nat assumes "k < n" shows "(x * n + k) div n = x" "(x * n + k) mod n = k"
  using assms by simp_all

lemma modsub:
  fixes a n q :: nat
  assumes "q * n \<le> a" "a < q * n + n"
  shows "a mod n = a - q * n"
proof -
  have lt: "a - q * n < n" using assms by simp
  have "a = q * n + (a - q * n)" using assms(1) by simp
  then have "a mod n = (q * n + (a - q * n)) mod n" by simp
  also have "\<dots> = a - q * n" using lt by (rule dm(2))
  finally show ?thesis .
qed

lemma enc2:
  fixes a b :: nat
  assumes "a = of_char c0" "b = of_char c1" "194 \<le> a" "a < 224" "128 \<le> b" "b \<le> 191"
  shows "EncodeRune ((a mod 32) * 64 + b mod 64) = [c0, c1]"
proof -
  define x y where "x = a - 192" and "y = b - 128"
  have bnd: "2 \<le> x" "x < 32" "y < 64" using assms by (simp_all add: x_def y_def)
  have m: "a mod 32 = x" "b mod 64 = y"
    using modsub[of 6 32 a] modsub[of 2 64 b] assms(3-6) by (simp_all add: x_def y_def)
  let ?r = "x * 64 + y"
  have d: "?r div 64 = x" "?r mod 64 = y" using bnd(3) by (rule dm)+
  have lo: "128 \<le> ?r" "?r \<le> 2047" using bnd by simp_all
  have bk: "192 + x = a" "128 + y = b" using assms by (simp_all add: x_def y_def)
  have "EncodeRune ?r = [char_of (192 + ?r div 64), char_of (128 + ?r mod 64)]"
    using lo unfolding EncodeRune_def by (simp del: char_of_quasi_inj)
  also have "\<dots> = [c0, c1]" unfolding d bk using assms(1,2) by simp
  finally show ?thesis unfolding m .
qed

lemma enc3:
  fixes a b d :: nat
  assumes "a = of_char c0" "b = of_char c1" "d = of_char c2" "224 \<le> a" "a < 240"
    "(if a = 224 then 160 else 128) \<le> b" "b \<le> (if a = 237 then 159 else 191)"
    "128 \<le> d" "d \<le> 191"
  shows "EncodeRune ((a mod 16) * 4096 + (b mod 64) * 64 + d mod 64) = [c0, c1, c2]"
proof -
  define x y z where "x = a - 224" and "y = b - 128" and "z = d - 128"
  have b128: "128 \<le> b" "b \<le> 191" using assms(6,7) by (simp_all split: if_splits)
  have bnd: "x < 16" "y < 64" "z < 64" using assms(4,5,8,9) b128 by (simp_all add: x_def y_def z_def)
  have m: "a mod 16 = x" "b mod 64 = y" "d mod 64 = z"
    using modsub[of 14 16 a] modsub[of 2 64 b] modsub[of 2 64 d] assms(4,5,8,9) b128
    by (simp_all add: x_def y_def z_def)
  let ?r = "x * 4096 + y * 64 + z"
  have r1: "?r = (x * 64 + y) * 64 + z" by simp
  have d1: "?r div 64 = x * 64 + y" "?r mod 64 = z" unfolding r1 using bnd(3) by (rule dm)+
  have d2: "(x * 64 + y) mod 64 = y" using bnd(2) by (rule dm)
  have r2: "?r = x * 4096 + (y * 64 + z)" by simp
  have lt: "y * 64 + z < 4096" using bnd by simp
  have d3: "?r div 4096 = x" unfolding r2 using lt by (rule dm)
  have xy: "x = 0 \<longrightarrow> 32 \<le> y" "x = 13 \<longrightarrow> y \<le> 31"
    using assms(4,5,6,7) by (simp_all add: x_def y_def split: if_splits)
  have lo: "2048 \<le> ?r" using xy(1) by (cases "x = 0") simp_all
  have hi: "?r \<le> 65535" using bnd by simp
  have sur: "?r < 55296 \<or> 57343 < ?r"
  proof (cases "x = 13")
    case True then show ?thesis using xy(2) bnd by simp
  next
    case False
    then consider "x \<le> 12" | "14 \<le> x" by linarith
    then show ?thesis using bnd by cases simp_all
  qed
  have sur': "(55296 \<le> ?r \<and> ?r \<le> 57343) = False" using sur by auto
  have bk: "224 + x = a" "128 + y = b" "128 + z = d"
    using assms(4,5,8,9) b128 by (simp_all add: x_def y_def z_def)
  have "EncodeRune ?r = [char_of (224 + ?r div 4096), char_of (128 + (?r div 64) mod 64), char_of (128 + ?r mod 64)]"
    using lo hi unfolding EncodeRune_def sur' by (simp del: char_of_quasi_inj)
  also have "\<dots> = [c0, c1, c2]"
    unfolding d1 d2 d3 bk using assms(1,2,3) by simp
  finally show ?thesis unfolding m .
qed

lemma enc4:
  fixes a b d e :: nat
  assumes "a = of_char c0" "b = of_char c1" "d = of_char c2" "e = of_char c3" "240 \<le> a" "a \<le> 244"
    "(if a = 240 then 144 else 128) \<le> b" "b \<le> (if a = 244 then 143 else 191)"
    "128 \<le> d" "d \<le> 191" "128 \<le> e" "e \<le> 191"
  shows "EncodeRune ((a mod 8) * 262144 + (b mod 64) * 4096 + (d mod 64) * 64 + e mod 64) = [c0, c1, c2, c3]"
proof -
  define x y z t where "x = a - 240" and "y = b - 128" and "z = d - 128" and "t = e - 128"
  have b128: "128 \<le> b" "b \<le> 191" using assms(7,8) by (simp_all split: if_splits)
  have bnd: "x < 5" "y < 64" "z < 64" "t < 64"
    using assms(5,6,9-12) b128 by (simp_all add: x_def y_def z_def t_def)
  have m: "a mod 8 = x" "b mod 64 = y" "d mod 64 = z" "e mod 64 = t"
    using modsub[of 30 8 a] modsub[of 2 64 b] modsub[of 2 64 d] modsub[of 2 64 e] assms(5,6,9-12) b128
    by (simp_all add: x_def y_def z_def t_def)
  let ?r = "x * 262144 + y * 4096 + z * 64 + t"
  have r1: "?r = ((x * 64 + y) * 64 + z) * 64 + t" by simp
  have d1: "?r div 64 = (x * 64 + y) * 64 + z" "?r mod 64 = t" unfolding r1 using bnd(4) by (rule dm)+
  have d2: "((x * 64 + y) * 64 + z) mod 64 = z" using bnd(3) by (rule dm)
  have r2: "?r = (x * 64 + y) * 4096 + (z * 64 + t)" by simp
  have lt2: "z * 64 + t < 4096" using bnd by simp
  have d3: "?r div 4096 = x * 64 + y" unfolding r2 using lt2 by (rule dm)
  have d4: "(x * 64 + y) mod 64 = y" using bnd(2) by (rule dm)
  have r3: "?r = x * 262144 + (y * 4096 + z * 64 + t)" by simp
  have lt3: "y * 4096 + z * 64 + t < 262144" using bnd by simp
  have d5: "?r div 262144 = x" unfolding r3 using lt3 by (rule dm)
  have xy: "x = 0 \<longrightarrow> 16 \<le> y" "x = 4 \<longrightarrow> y \<le> 15"
    using assms(5,6,7,8) by (simp_all add: x_def y_def split: if_splits)
  have lo: "65536 \<le> ?r" using xy(1) by (cases "x = 0") simp_all
  have hi: "?r \<le> 1114111"
  proof (cases "x = 4")
    case True then show ?thesis using xy(2) bnd by simp
  next
    case False then have "x \<le> 3" using bnd(1) by simp
    then show ?thesis using bnd by simp
  qed
  have bk: "240 + x = a" "128 + y = b" "128 + z = d" "128 + t = e"
    using assms(5,6,9-12) b128 by (simp_all add: x_def y_def z_def t_def)
  have "EncodeRune ?r = [char_of (240 + ?r div 262144), char_of (128 + (?r div 4096) mod 64),
         char_of (128 + (?r div 64) mod 64), char_of (128 + ?r mod 64)]"
    using lo hi unfolding EncodeRune_def by (simp del: char_of_quasi_inj)
  also have "\<dots> = [c0, c1, c2, c3]"
    unfolding d1 d2 d3 d4 d5 bk using assms(1-4) by simp
  finally show ?thesis unfolding m .
qed


lemma decode_vunit:
  assumes dec: "DecodeRuneInString (c # cs) = (r, w)" and ok: "\<not> (r = RuneError \<and> w = 1)"
  shows "vunit (r, take w (c # cs))"
proof -
  let ?a = "of_char c :: nat"
  consider (ascii) "?a < 128" | (bad) "128 \<le> ?a \<and> (?a < 194 \<or> 244 < ?a)"
    | (two) "194 \<le> ?a \<and> ?a < 224" | (three) "224 \<le> ?a \<and> ?a < 240"
    | (four) "240 \<le> ?a \<and> ?a \<le> 244"
    by linarith
  then show ?thesis
  proof cases
    case ascii
    then have "r = ?a" "w = 1" using dec by simp_all
    then show ?thesis using ascii enc1[OF ascii]
      by (simp add: vunit_def invalidUnit_def RuneError_def)
  next
    case bad
    then have "r = RuneError \<and> w = 1" using dec by (auto simp: Let_def)
    then show ?thesis using ok by simp
  next
    case two
    show ?thesis
    proof (cases cs)
      case Nil
      then have "r = RuneError \<and> w = 1" using dec two by (simp add: Let_def)
      then show ?thesis using ok by simp
    next
      case (Cons c1 cs1)
      let ?b = "of_char c1 :: nat"
      have rng: "128 \<le> ?b \<and> ?b \<le> 191"
      proof (rule ccontr)
        assume "\<not> ?thesis"
        then have "r = RuneError \<and> w = 1" using dec two Cons by (auto simp: Let_def)
        then show False using ok by simp
      qed
      have rw: "r = (?a mod 32) * 64 + ?b mod 64" "w = 2"
        using dec two Cons rng by (auto simp: Let_def)
      have e: "EncodeRune r = [c, c1]"
        unfolding rw using enc2[OF refl refl, of c c1] two rng by simp
      have d: "DecodeRuneInString ([c, c1] @ rest) = (r, 2)" for rest
        using two rng rw by (auto simp: Let_def)
      show ?thesis using e d rw Cons by (simp add: vunit_def invalidUnit_def)
    qed
  next
    case three
    have short: "length cs < 2 \<Longrightarrow> r = RuneError \<and> w = 1"
      using dec three by (auto simp: Let_def)
    obtain c1 c2 cs2 where cs: "cs = c1 # c2 # cs2"
    proof (cases cs)
      case Nil then show ?thesis using short ok by simp
    next
      case (Cons x xs)
      then show ?thesis using short ok that by (cases xs) auto
    qed
    let ?b = "of_char c1 :: nat" and ?d = "of_char c2 :: nat"
    have rng1: "(if ?a = 224 then 160 else 128) \<le> ?b \<and> ?b \<le> (if ?a = 237 then 159 else 191)"
    proof (rule ccontr)
      assume "\<not> ?thesis"
      then have "r = RuneError \<and> w = 1" using dec three cs by (auto simp: Let_def split: if_splits)
      then show False using ok by simp
    qed
    have rng2: "128 \<le> ?d \<and> ?d \<le> 191"
    proof (rule ccontr)
      assume "\<not> ?thesis"
      then have "r = RuneError \<and> w = 1" using dec three cs rng1 by (auto simp: Let_def split: if_splits)
      then show False using ok by simp
    qed
    have rw: "r = (?a mod 16) * 4096 + (?b mod 64) * 64 + ?d mod 64" "w = 3"
      using dec three cs rng1 rng2 by (auto simp: Let_def split: if_splits)
    have e: "EncodeRune r = [c, c1, c2]"
      unfolding rw using enc3[OF refl refl refl, of c c1 c2] three rng1 rng2 by simp
    have d: "DecodeRuneInString ([c, c1, c2] @ rest) = (r, 3)" for rest
      using three rng1 rng2 rw by (auto simp: Let_def split: if_splits)
    show ?thesis using e d rw cs by (simp add: vunit_def invalidUnit_def)
  next
    case four
    have short: "length cs < 3 \<Longrightarrow> r = RuneError \<and> w = 1"
      using dec four by (auto simp: Let_def)
    obtain c1 c2 c3 cs3 where cs: "cs = c1 # c2 # c3 # cs3"
    proof (cases cs)
      case Nil then show ?thesis using short ok by simp
    next
      case (Cons x xs)
      show ?thesis
      proof (cases xs)
        case Nil then show ?thesis using Cons short ok by simp
      next
        case (Cons y ys)
        then show ?thesis using \<open>cs = x # xs\<close> short ok that by (cases ys) auto
      qed
    qed
    let ?b = "of_char c1 :: nat" and ?d = "of_char c2 :: nat" and ?e = "of_char c3 :: nat"
    have rng1: "(if ?a = 240 then 144 else 128) \<le> ?b \<and> ?b \<le> (if ?a = 244 then 143 else 191)"
    proof (rule ccontr)
      assume "\<not> ?thesis"
      then have "r = RuneError \<and> w = 1" using dec four cs by (auto simp: Let_def split: if_splits)
      then show False using ok by simp
    qed
    have rng2: "128 \<le> ?d \<and> ?d \<le> 191"
    proof (rule ccontr)
      assume "\<not> ?thesis"
      then have "r = RuneError \<and> w = 1" using dec four cs rng1 by (auto simp: Let_def split: if_splits)
      then show False using ok by simp
    qed
    have rng3: "128 \<le> ?e \<and> ?e \<le> 191"
    proof (rule ccontr)
      assume "\<not> ?thesis"
      then have "r = RuneError \<and> w = 1" using dec four cs rng1 rng2 by (auto simp: Let_def split: if_splits)
      then show False using ok by simp
    qed
    have rw: "r = (?a mod 8) * 262144 + (?b mod 64) * 4096 + (?d mod 64) * 64 + ?e mod 64" "w = 4"
      using dec four cs rng1 rng2 rng3 by (auto simp: Let_def split: if_splits)
    have e: "EncodeRune r = [c, c1, c2, c3]"
      unfolding rw using enc4[OF refl refl refl refl, of c c1 c2 c3] four rng1 rng2 rng3 by simp
    have d: "DecodeRuneInString ([c, c1, c2, c3] @ rest) = (r, 4)" for rest
      using four rng1 rng2 rng3 rw by (auto simp: Let_def split: if_splits)
    show ?thesis using e d rw cs by (simp add: vunit_def invalidUnit_def)
  qed
qed


lemma runes_nonempty:
  "s \<noteq> [] \<Longrightarrow> runes s =
     (fst (DecodeRuneInString s), take (snd (DecodeRuneInString s)) s)
       # runes (drop (snd (DecodeRuneInString s)) s)"
  by (cases s) (simp_all add: Let_def)

lemma runes_concat: "concat (map snd (runes s)) = s"
  by (induction s rule: runes.induct) (simp_all add: Let_def del: DecodeRuneInString.simps)

lemma runes_units: "u \<in> set (runes s) \<Longrightarrow> invalidUnit u \<or> vunit u"
proof (induction s rule: runes.induct)
  case 1
  then show ?case by simp
next
  case (2 c cs)
  obtain r w where rw: "DecodeRuneInString (c # cs) = (r, w)" by (cases "DecodeRuneInString (c # cs)")
  from "2.prems" rw consider "u = (r, take w (c # cs))" | "u \<in> set (runes (drop w (c # cs)))"
    by (auto simp: Let_def simp del: DecodeRuneInString.simps)
  then show ?case
  proof cases
    case 1
    show ?thesis
    proof (cases "r = RuneError \<and> w = 1")
      case True
      then show ?thesis using 1 by (simp add: invalidUnit_def)
    next
      case False
      then show ?thesis using decode_vunit[OF rw] 1 by simp
    qed
  next
    case 2
    then show ?thesis using "2.IH"[of w] rw by simp
  qed
qed

lemma runes_of_units:
  "list_all vunit us \<Longrightarrow> runes (concat (map snd us) @ rest) = us @ runes rest"
proof (induction us)
  case Nil
  then show ?case by simp
next
  case (Cons u us)
  let ?s = "concat (map snd (u # us)) @ rest"
  have vu: "vunit u" and vus: "list_all vunit us" using Cons.prems by simp_all
  have s: "?s = snd u @ (concat (map snd us) @ rest)" by simp
  have ne: "?s \<noteq> []" using vu by (simp add: vunit_def)
  have d: "DecodeRuneInString ?s = (fst u, length (snd u))"
    unfolding s using vu by (simp add: vunit_def del: DecodeRuneInString.simps)
  have "runes ?s = (fst u, take (length (snd u)) ?s) # runes (drop (length (snd u)) ?s)"
    using runes_nonempty[OF ne] unfolding d by simp
  also have "take (length (snd u)) ?s = snd u" unfolding s by simp
  also have "drop (length (snd u)) ?s = concat (map snd us) @ rest" unfolding s by simp
  finally show ?case using Cons.IH[OF vus] by simp
qed

abbreviation sp :: "rune \<times> string \<Rightarrow> bool" where
  "sp u \<equiv> isSpace (fst u)"

definition trimU :: "(rune \<times> string) list \<Rightarrow> (rune \<times> string) list" where
  "trimU us = rev (dropWhile sp (rev (dropWhile sp us)))"

lemma TrimSpace_trimU: "TrimSpace s = concat (map snd (trimU (runes s)))"
  by (simp add: TrimSpace_def trimU_def)

lemma rev_dropWhile_rev_prefix: "\<exists>ys. xs = rev (dropWhile P (rev xs)) @ ys"
proof -
  have "rev (takeWhile P (rev xs) @ dropWhile P (rev xs)) = xs"
    by (simp only: takeWhile_dropWhile_id rev_rev_ident)
  then have "rev (dropWhile P (rev xs)) @ rev (takeWhile P (rev xs)) = xs"
    by (simp only: rev_append)
  then show ?thesis by metis
qed

lemma set_trimU: "set (trimU us) \<subseteq> set us"
proof -
  have "set (trimU us) \<subseteq> set (dropWhile sp us)"
    unfolding trimU_def using set_dropWhileD by fastforce
  also have "\<dots> \<subseteq> set us" using set_dropWhileD by fastforce
  finally show ?thesis .
qed

lemma dropWhile_trimU: "dropWhile sp (trimU us) = trimU us"
proof (cases "trimU us")
  case Nil
  then show ?thesis by simp
next
  case (Cons t ts)
  let ?ds = "dropWhile sp us"
  obtain ys where ys: "?ds = trimU us @ ys"
    using rev_dropWhile_rev_prefix[of ?ds sp] unfolding trimU_def by blast
  then have "?ds = t # (ts @ ys)" using Cons by simp
  then have "\<not> sp t" using hd_dropWhile[of sp us] by (metis list.sel(1) list.distinct(1))
  then show ?thesis using Cons by simp
qed

lemma trimU_idem: "trimU (trimU us) = trimU us"
proof -
  have "trimU (trimU us) = rev (dropWhile sp (rev (trimU us)))"
    unfolding trimU_def[of "trimU us"] dropWhile_trimU ..
  also have "\<dots> = trimU us" unfolding trimU_def by (simp add: dropWhile_idem)
  finally show ?thesis .
qed

abbreviation kp :: "rune \<times> string \<Rightarrow> bool" where
  "kp u \<equiv> keepRune (fst u)"

lemma write_kept:
  "list_all vunit us \<Longrightarrow>
     concat (map (\<lambda>u. if keepRune (fst u) then EncodeRune (fst u) else []) us)
       = concat (map snd (filter kp us))"
  by (induction us) (auto simp: vunit_def)

lemma vunit_valid: "list_all vunit us \<Longrightarrow> filter (\<lambda>u. \<not> invalidUnit u) us = us"
  by (induction us) (auto simp: vunit_def)

lemma runes_of_units0: "list_all vunit us \<Longrightarrow> runes (concat (map snd us)) = us"
  using runes_of_units[of us "[]"] by simp

lemma cleanContent_units:
  assumes "list_all vunit us"
  shows "cleanContent (concat (map snd us)) = concat (map snd (trimU (filter kp us)))"
proof -
  let ?s = "concat (map snd us)"
  have r: "runes ?s = us" using assms by (rule runes_of_units0)
  have v: "ValidString ?s" unfolding ValidString_def r using assms
    by (induction us) (auto simp: vunit_def)
  have k: "list_all vunit (filter kp us)" using assms by (induction us) auto
  have "cleanContent ?s = TrimSpace (concat (map snd (filter kp us)))"
    unfolding cleanContent_def using v r write_kept[OF assms] by (simp add: Let_def)
  also have "\<dots> = concat (map snd (trimU (filter kp us)))"
    unfolding TrimSpace_trimU runes_of_units0[OF k] ..
  finally show ?thesis .
qed

lemma cleanContent_form:
  "cleanContent s = concat (map snd (trimU (filter kp (filter (\<lambda>u. \<not> invalidUnit u) (runes s)))))"
proof -
  let ?V = "filter (\<lambda>u. \<not> invalidUnit u) (runes s)"
  have V: "list_all vunit ?V" using runes_units[of _ s] by (auto simp: list_all_iff)
  have k: "list_all vunit (filter kp ?V)" using V by (auto simp: list_all_iff)
  have c: "(if \<not> ValidString s then ToValidUTF8 s else s) = concat (map snd ?V)"
  proof (cases "ValidString s")
    case True
    then have "?V = runes s" unfolding ValidString_def by (simp add: list_all_iff)
    then show ?thesis using True runes_concat[of s] by simp
  next
    case False
    then show ?thesis by (simp add: ToValidUTF8_def)
  qed
  have "cleanContent s = TrimSpace (concat (map snd (filter kp ?V)))"
    unfolding cleanContent_def c Let_def runes_of_units0[OF V] write_kept[OF V] ..
  also have "\<dots> = concat (map snd (trimU (filter kp ?V)))"
    unfolding TrimSpace_trimU runes_of_units0[OF k] ..
  finally show ?thesis .
qed

text \<open>
  Claim C10: \<open>cleanContent\<close> is idempotent. For every byte string \<open>s\<close>, cleaning the
  cleaned text again changes nothing, so the second cleaning on the URL path
  (\<open>fetchContent\<close> cleans, then \<open>ProcessURL\<close> cleans again) leaves the content as it is.
\<close>

theorem cleanContent_idempotent: "cleanContent (cleanContent s) = cleanContent s"
proof -
  let ?V = "filter (\<lambda>u. \<not> invalidUnit u) (runes s)"
  let ?W = "trimU (filter kp ?V)"
  have sub: "set ?W \<subseteq> set (filter kp ?V)" by (rule set_trimU)
  have V: "list_all vunit ?V" using runes_units[of _ s] by (auto simp: list_all_iff)
  have W: "list_all vunit ?W" using sub V by (auto simp: list_all_iff)
  have f: "filter kp ?W = ?W" using sub by (auto simp: filter_id_conv)
  have "cleanContent (cleanContent s) = cleanContent (concat (map snd ?W))"
    unfolding cleanContent_form[of s] ..
  also have "\<dots> = concat (map snd (trimU (filter kp ?W)))" using W by (rule cleanContent_units)
  also have "\<dots> = concat (map snd ?W)" unfolding f trimU_idem ..
  also have "\<dots> = cleanContent s" unfolding cleanContent_form[of s] ..
  finally show ?thesis .
qed

section \<open>The chunker: \<open>chunkDocument\<close> (service/rag\_service.go, lines 446--510)\<close>

text \<open>
  \<open>Split\<close> is \<open>strings.Split\<close> for the one-byte separator \<open>"."\<close>; \<open>Index\<close> and
  \<open>LastIndex\<close> are \<open>strings.Index\<close> and \<open>strings.LastIndex\<close> (byte offsets, \<open>-1\<close> when
  the substring does not occur). A slice expression \<open>s[lo:]\<close> or \<open>s[:hi]\<close> panics when the
  bound is out of range; \<open>sliceFrom\<close> and \<open>sliceTo\<close> return \<open>None\<close> there.

  \<open>chunkStep\<close> is the body of the loop over the pieces of the split, \<open>sealChunk\<close> its
  inner block that appends the finished chunk, \<open>flushChunk\<close> the block after the loop.
  \<open>chunkInfos\<close> is the slice \<open>chunks\<close> that \<open>chunkDocument\<close> then stores row by row.
\<close>

fun Split :: "string \<Rightarrow> char \<Rightarrow> string list" where
  "Split [] sep = [[]]"
| "Split (c # cs) sep =
     (if c = sep then [] # Split cs sep
      else (case Split cs sep of [] \<Rightarrow> [[c]] | p # ps \<Rightarrow> (c # p) # ps))"

fun Index :: "string \<Rightarrow> string \<Rightarrow> int" where
  "Index [] substr = (if substr = [] then 0 else -1)"
| "Index (c # cs) substr =
     (if prefix substr (c # cs) then 0
      else (let i = Index cs substr in if i < 0 then -1 else i + 1))"

fun LastIndex :: "string \<Rightarrow> string \<Rightarrow> int" where
  "LastIndex [] substr = (if substr = [] then 0 else -1)"
| "LastIndex (c # cs) substr =
     (let i = LastIndex cs substr in
      if 0 \<le> i then i + 1 else if prefix substr (c # cs) then 0 else -1)"

definition len :: "string \<Rightarrow> int" where
  "len s = int (length s)"

definition sliceFrom :: "string \<Rightarrow> int \<Rightarrow> string option" where
  "sliceFrom s lo = (if 0 \<le> lo \<and> lo \<le> len s then Some (drop (nat lo) s) else None)"

definition sliceTo :: "string \<Rightarrow> int \<Rightarrow> string option" where
  "sliceTo s hi = (if 0 \<le> hi \<and> hi \<le> len s then Some (take (nat hi) s) else None)"

record ChunkInfo =
  Content :: string
  ChunkIndex :: int
  StartPosition :: int
  EndPosition :: int

record chunker =
  chunks :: "ChunkInfo list"
  currentChunk :: string
  currentStart :: int
  chunkIndex :: int

definition sealChunk :: "string \<Rightarrow> chunker \<Rightarrow> int \<Rightarrow> chunker option" where
  "sealChunk content st sentenceStart =
     (if currentChunk st \<noteq> [] then
        (case sliceTo content sentenceStart of
           None \<Rightarrow> None
         | Some before \<Rightarrow>
             (let i = LastIndex before (currentChunk st);
                  chunkEnd = (if i = -1 then sentenceStart else i + len (currentChunk st))
              in Some (st\<lparr>chunks := chunks st @
                          [\<lparr>Content = currentChunk st, ChunkIndex = chunkIndex st,
                            StartPosition = currentStart st, EndPosition = chunkEnd\<rparr>],
                        chunkIndex := chunkIndex st + 1\<rparr>)))
      else Some st)"

definition chunkStep :: "string \<Rightarrow> chunker \<Rightarrow> string \<Rightarrow> chunker option" where
  "chunkStep content st sentence0 =
     (let sentence = TrimSpace sentence0 in
      if sentence = [] then Some st
      else
        (case sliceFrom content (currentStart st) of
           None \<Rightarrow> None
         | Some rest \<Rightarrow>
             (let i = Index rest sentence;
                  sentenceStart = (if i = -1 then 0 else i) + currentStart st
              in if len (currentChunk st) + len sentence < 1000 then
                   Some (st\<lparr>currentChunk :=
                     (if currentChunk st \<noteq> [] then currentChunk st @ ''. '' else currentChunk st)
                       @ sentence\<rparr>)
                 else
                   (case sealChunk content st sentenceStart of
                      None \<Rightarrow> None
                    | Some st' \<Rightarrow>
                        Some (st'\<lparr>currentChunk := sentence, currentStart := sentenceStart\<rparr>)))))"

fun chunkLoop :: "string \<Rightarrow> chunker \<Rightarrow> string list \<Rightarrow> chunker option" where
  "chunkLoop content st [] = Some st"
| "chunkLoop content st (s # ss) =
     (case chunkStep content st s of None \<Rightarrow> None | Some st' \<Rightarrow> chunkLoop content st' ss)"

definition flushChunk :: "string \<Rightarrow> chunker \<Rightarrow> ChunkInfo list option" where
  "flushChunk content st =
     (if currentChunk st \<noteq> [] then
        (case sliceFrom content (currentStart st) of
           None \<Rightarrow> None
         | Some rest \<Rightarrow>
             (let i = LastIndex rest (currentChunk st);
                  chunkEnd = (if i = -1 then len content else i + (currentStart st + len (currentChunk st)))
              in Some (chunks st @
                   [\<lparr>Content = currentChunk st, ChunkIndex = chunkIndex st,
                     StartPosition = currentStart st, EndPosition = chunkEnd\<rparr>])))
      else Some (chunks st))"

definition chunkInfos :: "string \<Rightarrow> ChunkInfo list option" where
  "chunkInfos content =
     (case chunkLoop content \<lparr>chunks = [], currentChunk = [], currentStart = 0, chunkIndex = 0\<rparr>
             (Split content (CHR ''.'')) of
        None \<Rightarrow> None
      | Some st \<Rightarrow> flushChunk content st)"


subsection \<open>Evaluating the string helpers on long inputs\<close>

definition ascii :: "string \<Rightarrow> bool" where
  "ascii s = list_all (\<lambda>c. (of_char c :: nat) < 128) s"

lemma runes_ascii: "ascii s \<Longrightarrow> runes s = map (\<lambda>c. (of_char c, [c])) s"
  by (induction s) (simp_all add: ascii_def)

lemma TrimSpace_keep:
  assumes "ascii s" and "s \<noteq> []" and "\<not> isSpace (of_char (hd s))" and "\<not> isSpace (of_char (last s))"
  shows "TrimSpace s = s"
proof -
  let ?f = "\<lambda>c::char. (of_char c :: nat, [c])"
  obtain c cs where s: "s = c # cs" using assms(2) by (cases s) auto
  have 1: "dropWhile sp (map ?f s) = map ?f s" using assms(3) s by simp
  have "map ?f s = map ?f (butlast s @ [last s])" using assms(2) by simp
  then have "rev (map ?f s) = ?f (last s) # rev (map ?f (butlast s))"
    by (simp only: map_append rev_append list.map rev.simps append.simps)
  then have 2: "dropWhile sp (rev (map ?f s)) = rev (map ?f s)" using assms(4) by simp
  have "concat (map snd (map ?f s)) = s" by (induction s) simp_all
  then show ?thesis unfolding TrimSpace_def runes_ascii[OF assms(1)] 1 2 by simp
qed

lemma TrimSpace_lead:
  assumes "(of_char c :: nat) < 128" and "isSpace (of_char c)"
  shows "TrimSpace (c # s) = TrimSpace s"
  using assms by (simp add: TrimSpace_def Let_def)

lemma Split_none: "sep \<notin> set a \<Longrightarrow> Split a sep = [a]"
  by (induction a) auto

lemma Split_at: "sep \<notin> set a \<Longrightarrow> Split (a @ sep # b) sep = a # Split b sep"
  by (induction a) auto

lemma LastIndex_append:
  "0 \<le> LastIndex b substr \<Longrightarrow> LastIndex (a @ b) substr = int (length a) + LastIndex b substr"
  by (induction a) (auto simp: Let_def)

lemma LastIndex_short: "length s < length substr \<Longrightarrow> LastIndex s substr = -1"
  by (induction s) (auto simp: Let_def dest: prefix_length_le)

lemma Index_prefix: "prefix substr s \<Longrightarrow> Index s substr = 0"
  by (cases s) auto

definition xs995 :: string where
  "xs995 = replicate 995 (CHR ''x'')"

definition doc1 :: string where
  "doc1 = ''Hi. '' @ xs995 @ ''. Hi''"

lemma xs995_props: "length xs995 = 995" "CHR ''.'' \<notin> set xs995" "ascii xs995" "xs995 \<noteq> []"
  "hd xs995 = CHR ''x''" "last xs995 = CHR ''x''"
  by (auto simp: xs995_def ascii_def list_all_iff hd_replicate last_replicate)


lemma split_doc1: "Split doc1 (CHR ''.'') = [''Hi'', CHR '' '' # xs995, '' Hi'']"
proof -
  have e: "doc1 = ''Hi'' @ CHR ''.'' # ((CHR '' '' # xs995) @ CHR ''.'' # '' Hi'')"
    by (simp add: doc1_def)
  have a: "Split (''Hi'' @ CHR ''.'' # R) (CHR ''.'') = ''Hi'' # Split R (CHR ''.'')" for R
    by (rule Split_at) simp
  have b: "Split ((CHR '' '' # xs995) @ CHR ''.'' # '' Hi'') (CHR ''.'')
             = (CHR '' '' # xs995) # Split '' Hi'' (CHR ''.'')"
    by (rule Split_at) (simp add: xs995_props)
  have c: "Split '' Hi'' (CHR ''.'') = ['' Hi'']"
    by (rule Split_none) simp
  show ?thesis unfolding e a b c ..
qed

lemma trim2: "TrimSpace (CHR '' '' # xs995) = xs995"
proof -
  have "TrimSpace (CHR '' '' # xs995) = TrimSpace xs995"
    by (rule TrimSpace_lead) (simp_all add: isSpace_def)
  also have "\<dots> = xs995" using xs995_props by (intro TrimSpace_keep) (simp_all add: isSpace_def)
  finally show ?thesis .
qed

lemma lastIndex_doc1: "LastIndex doc1 ''Hi'' = 1003 - 2"
proof -
  have e: "doc1 = (''Hi. '' @ xs995 @ ''. '') @ ''Hi''" by (simp add: doc1_def)
  have z: "LastIndex ''Hi'' ''Hi'' = 0" by simp
  have l: "int (length (''Hi. '' @ xs995 @ ''. '')) = 1001" by (simp add: xs995_props)
  have "LastIndex ((''Hi. '' @ xs995 @ ''. '') @ ''Hi'') ''Hi''
          = int (length (''Hi. '' @ xs995 @ ''. '')) + LastIndex ''Hi'' ''Hi''"
    by (rule LastIndex_append) (simp only: z)
  then show ?thesis unfolding e z l by simp
qed

lemma chunkInfos_doc1: "chunkInfos doc1 =
  Some [\<lparr>Content = ''Hi. '' @ xs995, ChunkIndex = 0, StartPosition = 0, EndPosition = 0\<rparr>,
        \<lparr>Content = ''Hi'', ChunkIndex = 1, StartPosition = 0, EndPosition = 1003\<rparr>]"
proof -
  let ?st0 = "\<lparr>chunks = [], currentChunk = [], currentStart = 0, chunkIndex = 0\<rparr>"
  let ?st1 = "\<lparr>chunks = [], currentChunk = ''Hi'', currentStart = 0, chunkIndex = 0\<rparr>"
  let ?st2 = "\<lparr>chunks = [], currentChunk = ''Hi. '' @ xs995, currentStart = 0, chunkIndex = 0\<rparr>"
  let ?c0 = "\<lparr>Content = ''Hi. '' @ xs995, ChunkIndex = 0, StartPosition = 0, EndPosition = 0\<rparr>"
  let ?st3 = "\<lparr>chunks = [?c0], currentChunk = ''Hi'', currentStart = 0, chunkIndex = 1\<rparr>"
  have tr: "TrimSpace ''Hi'' = ''Hi''" "TrimSpace '' Hi'' = ''Hi''"
    by (simp_all add: TrimSpace_def isSpace_def)
  have s1: "chunkStep doc1 ?st0 ''Hi'' = Some ?st1"
    by (simp add: chunkStep_def tr sliceFrom_def len_def Let_def del: Index.simps LastIndex.simps)
  have s2: "chunkStep doc1 ?st1 (CHR '' '' # xs995) = Some ?st2"
    by (simp add: chunkStep_def trim2 sliceFrom_def len_def Let_def xs995_props del: Index.simps LastIndex.simps)
  have ix: "Index doc1 ''Hi'' = 0" by (rule Index_prefix) (simp add: doc1_def)
  have s3: "chunkStep doc1 ?st2 '' Hi'' = Some ?st3"
    by (simp add: chunkStep_def tr sliceFrom_def sliceTo_def sealChunk_def len_def Let_def xs995_props ix
          del: Index.simps)
  have loop: "chunkLoop doc1 ?st0 (Split doc1 (CHR ''.'')) = Some ?st3"
    unfolding split_doc1 using s1 s2 s3 by (simp del: Index.simps LastIndex.simps)
  have "flushChunk doc1 ?st3 = Some [?c0, \<lparr>Content = ''Hi'', ChunkIndex = 1, StartPosition = 0, EndPosition = 1003\<rparr>]"
    by (simp add: flushChunk_def sliceFrom_def len_def Let_def lastIndex_doc1 del: Index.simps LastIndex.simps)
  then show ?thesis unfolding chunkInfos_def loop by simp
qed

subsection \<open>The grouping of sentences into chunks\<close>

text \<open>
  \<open>sentences\<close> are the pieces the loop does not skip. A group is the list of sentences
  that make up one chunk, \<open>joinG\<close> the chunk text (the sentences joined by \<open>". "\<close>).
  \<open>accumulates cur r\<close> says that each sentence of \<open>r\<close> in turn passed the test
  \<open>len(currentChunk)+len(sentence) < 1000\<close> against the chunk accumulated so far;
  \<open>greedy\<close> says that every group is such a run and that the first sentence of the
  next group failed the test against the finished group before it.
  \<open>gadd\<close> is the effect of one loop iteration on the groups.
\<close>

definition sentences :: "string \<Rightarrow> string list" where
  "sentences content = filter (\<lambda>s. s \<noteq> []) (map TrimSpace (Split content (CHR ''.'')))"

fun joinG :: "string list \<Rightarrow> string" where
  "joinG [] = []"
| "joinG (s # r) = foldl (\<lambda>cur x. cur @ ''. '' @ x) s r"

fun accumulates :: "string \<Rightarrow> string list \<Rightarrow> bool" where
  "accumulates cur [] = True"
| "accumulates cur (x # r) =
     (x \<noteq> [] \<and> length cur + length x < 1000 \<and> accumulates (cur @ ''. '' @ x) r)"

fun wellGroup :: "string list \<Rightarrow> bool" where
  "wellGroup [] = False"
| "wellGroup (s # r) = (s \<noteq> [] \<and> accumulates s r)"

fun greedyFrom :: "string list \<Rightarrow> string list list \<Rightarrow> bool" where
  "greedyFrom g [] = wellGroup g"
| "greedyFrom g (h # gs) =
     (wellGroup g \<and> (case h of [] \<Rightarrow> False | s # r \<Rightarrow> 1000 \<le> length (joinG g) + length s)
      \<and> greedyFrom h gs)"

fun greedy :: "string list list \<Rightarrow> bool" where
  "greedy [] = True"
| "greedy (g # gs) = greedyFrom g gs"

fun gadd :: "string list list \<Rightarrow> string \<Rightarrow> string list list" where
  "gadd [] s = [[s]]"
| "gadd (g # gs) s =
     (if length (joinG (last (g # gs))) + length s < 1000
      then butlast (g # gs) @ [last (g # gs) @ [s]]
      else (g # gs) @ [[s]])"

lemma Index_range: "- 1 \<le> Index s substr \<and> Index s substr \<le> int (length s)"
  by (induction s) (auto simp: Let_def)

lemma joinG_snoc: "g \<noteq> [] \<Longrightarrow> joinG (g @ [s]) = joinG g @ ''. '' @ s"
  by (cases g) simp_all

lemma accumulates_snoc:
  "accumulates cur (r @ [x]) =
     (accumulates cur r \<and> x \<noteq> [] \<and> length (foldl (\<lambda>cur x. cur @ ''. '' @ x) cur r) + length x < 1000)"
  by (induction r arbitrary: cur) auto

lemma wellGroup_snoc:
  "g \<noteq> [] \<Longrightarrow> wellGroup (g @ [x]) = (wellGroup g \<and> x \<noteq> [] \<and> length (joinG g) + length x < 1000)"
  by (cases g) (auto simp: accumulates_snoc)

lemma wellGroup_nonempty: "wellGroup g \<Longrightarrow> g \<noteq> [] \<and> joinG g \<noteq> []"
proof (cases g)
  case Nil
  then show "wellGroup g \<Longrightarrow> ?thesis" by simp
next
  case (Cons s r)
  have "s \<noteq> [] \<Longrightarrow> foldl (\<lambda>cur x. cur @ ''. '' @ x) s r \<noteq> []"
    by (induction r arbitrary: s) auto
  then show "wellGroup g \<Longrightarrow> ?thesis" using Cons by simp
qed

lemma greedyFrom_last: "greedyFrom g gs \<Longrightarrow> wellGroup (last (g # gs))"
  by (induction gs arbitrary: g) (auto split: list.splits)

lemma greedyFrom_new:
  "greedyFrom g gs \<Longrightarrow> s \<noteq> [] \<Longrightarrow> 1000 \<le> length (joinG (last (g # gs))) + length s
     \<Longrightarrow> greedyFrom g (gs @ [[s]])"
  by (induction gs arbitrary: g) (auto split: list.splits)

lemma greedyFrom_ext:
  "greedyFrom g gs \<Longrightarrow> s \<noteq> [] \<Longrightarrow> length (joinG (last (g # gs))) + length s < 1000
     \<Longrightarrow> greedy (butlast (g # gs) @ [last (g # gs) @ [s]])"
proof (induction gs arbitrary: g)
  case Nil
  then show ?case using wellGroup_snoc[of g s] wellGroup_nonempty[of g] by simp
next
  case (Cons h gs)
  have wg: "wellGroup g" and hne: "h \<noteq> []"
    and bd: "1000 \<le> length (joinG g) + length (hd h)" and gh: "greedyFrom h gs"
    using Cons.prems(1) by (auto split: list.splits)
  have ih: "greedy (butlast (h # gs) @ [last (h # gs) @ [s]])"
    using Cons.IH[OF gh Cons.prems(2)] Cons.prems(3) by simp
  show ?case
  proof (cases gs)
    case Nil
    then show ?thesis using wg hne bd ih by (cases h) auto
  next
    case (Cons k ks)
    then show ?thesis using wg hne bd ih by (cases h) auto
  qed
qed

lemma gadd_greedy: "greedy gs \<Longrightarrow> s \<noteq> [] \<Longrightarrow> greedy (gadd gs s)"
proof (cases gs)
  case Nil
  then show "greedy gs \<Longrightarrow> s \<noteq> [] \<Longrightarrow> ?thesis" by simp
next
  case (Cons g gs')
  assume a: "greedy gs" "s \<noteq> []"
  show ?thesis
  proof (cases "length (joinG (last (g # gs'))) + length s < 1000")
    case True
    then show ?thesis using greedyFrom_ext[of g gs' s] a Cons by simp
  next
    case False
    then show ?thesis using greedyFrom_new[of g gs' s] a Cons by simp
  qed
qed

lemma gadd_concat: "concat (gadd gs s) = concat gs @ [s]"
proof (cases gs)
  case Nil
  then show ?thesis by simp
next
  case (Cons g gs')
  have "concat (butlast gs @ [last gs @ [s]]) = concat (butlast gs @ [last gs]) @ [s]"
    by simp
  also have "butlast gs @ [last gs] = gs" using Cons by simp
  finally show ?thesis using Cons by simp
qed

lemma gadd_nonempty: "list_all (\<lambda>g. g \<noteq> []) gs \<Longrightarrow> list_all (\<lambda>g. g \<noteq> []) (gadd gs s)"
proof (cases gs)
  case Nil
  then show "list_all (\<lambda>g. g \<noteq> []) gs \<Longrightarrow> ?thesis" by simp
next
  case (Cons g gs')
  assume a: "list_all (\<lambda>g. g \<noteq> []) gs"
  have "set (butlast gs) \<subseteq> set gs" by (auto dest: in_set_butlastD)
  then have "list_all (\<lambda>g. g \<noteq> []) (butlast gs)" using a by (auto simp: list_all_iff)
  then show ?thesis using a Cons by simp
qed

lemma foldl_gadd:
  "greedy gs \<Longrightarrow> list_all (\<lambda>g. g \<noteq> []) gs \<Longrightarrow> list_all (\<lambda>s. s \<noteq> []) ss \<Longrightarrow>
     greedy (foldl gadd gs ss) \<and> concat (foldl gadd gs ss) = concat gs @ ss
       \<and> list_all (\<lambda>g. g \<noteq> []) (foldl gadd gs ss)"
proof (induction ss arbitrary: gs)
  case Nil
  then show ?case by simp
next
  case (Cons s ss)
  have 1: "greedy (gadd gs s)" using Cons.prems gadd_greedy by simp
  have 2: "list_all (\<lambda>g. g \<noteq> []) (gadd gs s)" using Cons.prems gadd_nonempty by simp
  have 3: "list_all (\<lambda>s. s \<noteq> []) ss" using Cons.prems by simp
  show ?case using Cons.IH[OF 1 2 3] gadd_concat[of gs s] by simp
qed

subsection \<open>The loop computes the greedy grouping and never panics\<close>

definition rel :: "string \<Rightarrow> chunker \<Rightarrow> string list list \<Rightarrow> bool" where
  "rel content st gs =
     (0 \<le> currentStart st \<and> currentStart st \<le> len content
      \<and> chunkIndex st = int (length (chunks st))
      \<and> map ChunkIndex (chunks st) = map int [0..<length (chunks st)]
      \<and> greedy gs
      \<and> sorted (map StartPosition (chunks st))
      \<and> list_all (\<lambda>c. StartPosition c \<le> currentStart st) (chunks st)
      \<and> (if gs = [] then currentChunk st = [] \<and> chunks st = []
         else currentChunk st = joinG (last gs) \<and> map Content (chunks st) = map joinG (butlast gs)))"

lemma greedy_last: "greedy gs \<Longrightarrow> gs \<noteq> [] \<Longrightarrow> last gs \<noteq> [] \<and> joinG (last gs) \<noteq> []"
proof -
  assume a: "greedy gs" "gs \<noteq> []"
  then obtain g gs' where c: "gs = g # gs'" by (cases gs) auto
  then have "wellGroup (last gs)" using a greedyFrom_last[of g gs'] by simp
  then show ?thesis using wellGroup_nonempty by blast
qed

lemma chunkStep_skip: "TrimSpace p = [] \<Longrightarrow> chunkStep content st p = Some st"
  by (simp add: chunkStep_def)

lemma upt_int_snoc: "map int [0..<n] @ [int n] = map int [0..<Suc n]"
  by simp

lemma chunkStep_rel:
  assumes r: "rel content st gs" and s: "TrimSpace p = s" and ne: "s \<noteq> []"
  shows "\<exists>st'. chunkStep content st p = Some st' \<and> rel content st' (gadd gs s)
           \<and> currentStart st \<le> currentStart st'"
proof -
  let ?rest = "drop (nat (currentStart st)) content"
  let ?i = "Index ?rest s"
  let ?start = "(if ?i = - 1 then 0 else ?i) + currentStart st"
  have b: "0 \<le> currentStart st" "currentStart st \<le> len content" using r by (simp_all add: rel_def)
  have sf: "sliceFrom content (currentStart st) = Some ?rest" using b by (simp add: sliceFrom_def)
  have ir: "- 1 \<le> ?i" "?i \<le> int (length ?rest)" using Index_range[of ?rest s] by simp_all
  have sb: "currentStart st \<le> ?start" "0 \<le> ?start" "?start \<le> len content"
    using ir b by (auto simp: len_def)
  have g: "greedy gs" using r by (simp add: rel_def)
  have g': "greedy (gadd gs s)" using g ne by (rule gadd_greedy)
  have idx: "chunkIndex st = int (length (chunks st))"
    "map ChunkIndex (chunks st) = map int [0..<length (chunks st)]"
    "sorted (map StartPosition (chunks st))"
    "list_all (\<lambda>c. StartPosition c \<le> currentStart st) (chunks st)"
    using r by (simp_all add: rel_def)
  have idx': "list_all (\<lambda>c. StartPosition c \<le> ?start) (chunks st)"
    using idx(4) sb(1) by (auto simp: list_all_iff)
  have srt: "sorted (map StartPosition (chunks st) @ [currentStart st])"
    using idx(3,4) by (auto simp: sorted_append list_all_iff)
  show ?thesis
  proof (cases "len (currentChunk st) + len s < 1000")
    case True
    let ?st' = "st\<lparr>currentChunk := (if currentChunk st \<noteq> [] then currentChunk st @ ''. '' else currentChunk st) @ s\<rparr>"
    have step: "chunkStep content st p = Some ?st'"
      using True sf s ne by (simp add: chunkStep_def Let_def)
    have "rel content ?st' (gadd gs s)"
    proof (cases gs)
      case Nil
      then show ?thesis using r g' b idx by (simp add: rel_def)
    next
      case (Cons h hs)
      have cur: "currentChunk st = joinG (last gs)" "map Content (chunks st) = map joinG (butlast gs)"
        using r Cons by (simp_all add: rel_def)
      have lne: "last gs \<noteq> []" "joinG (last gs) \<noteq> []" using greedy_last[OF g] Cons by simp_all
      have t: "length (joinG (last gs)) + length s < 1000" using True cur by (simp add: len_def)
      have ga: "gadd gs s = butlast gs @ [last gs @ [s]]" using t Cons by simp
      show ?thesis unfolding ga using cur lne b idx g' ga joinG_snoc[OF lne(1), of s]
        by (simp add: rel_def)
    qed
    then show ?thesis using step by simp
  next
    case False
    show ?thesis
    proof (cases gs)
      case Nil
      then have cur: "currentChunk st = []" "chunks st = []" using r by (simp_all add: rel_def)
      let ?st' = "st\<lparr>currentChunk := s, currentStart := ?start\<rparr>"
      have step: "chunkStep content st p = Some ?st'"
        using False sf s ne cur by (simp add: chunkStep_def sealChunk_def Let_def)
      have "rel content ?st' (gadd gs s)" using Nil cur sb idx idx' g' by (simp add: rel_def)
      then show ?thesis using step sb by simp
    next
      case (Cons h hs)
      have cur: "currentChunk st = joinG (last gs)" "map Content (chunks st) = map joinG (butlast gs)"
        using r Cons by (simp_all add: rel_def)
      have lne: "last gs \<noteq> []" "joinG (last gs) \<noteq> []" using greedy_last[OF g] Cons by simp_all
      have t: "\<not> length (joinG (last gs)) + length s < 1000" using False cur by (simp add: len_def)
      have ga: "gadd gs s = gs @ [[s]]" using t Cons by simp
      let ?j = "LastIndex (take (nat ?start) content) (currentChunk st)"
      let ?end = "(if ?j = - 1 then ?start else ?j + len (currentChunk st))"
      let ?c = "\<lparr>Content = currentChunk st, ChunkIndex = chunkIndex st,
                 StartPosition = currentStart st, EndPosition = ?end\<rparr>"
      let ?st' = "st\<lparr>chunks := chunks st @ [?c], chunkIndex := chunkIndex st + 1,
                     currentChunk := s, currentStart := ?start\<rparr>"
      have st: "sliceTo content ?start = Some (take (nat ?start) content)"
        using sb by (simp add: sliceTo_def)
      have seal: "sealChunk content st ?start
                    = Some (st\<lparr>chunks := chunks st @ [?c], chunkIndex := chunkIndex st + 1\<rparr>)"
        unfolding sealChunk_def st using cur lne by (simp add: Let_def)
      have step: "chunkStep content st p = Some ?st'"
        using False sf s ne seal by (simp add: chunkStep_def Let_def)
      have m: "map joinG gs = map joinG (butlast gs) @ [joinG (last gs)]"
        using Cons by (metis append_butlast_last_id list.distinct(1) list.simps(8,9) map_append)
      have "rel content ?st' (gadd gs s)"
        unfolding ga using cur sb idx idx' srt g' ga m by (simp add: rel_def)
      then show ?thesis using step sb by simp
    qed
  qed
qed

lemma chunkLoop_rel:
  "rel content st gs \<Longrightarrow>
     \<exists>st'. chunkLoop content st ps = Some st'
        \<and> rel content st' (foldl gadd gs (filter (\<lambda>s. s \<noteq> []) (map TrimSpace ps)))"
proof (induction ps arbitrary: st gs)
  case Nil
  then show ?case by simp
next
  case (Cons p ps)
  show ?case
  proof (cases "TrimSpace p = []")
    case True
    then show ?thesis using Cons.IH[OF Cons.prems] chunkStep_skip[OF True] by simp
  next
    case False
    obtain st1 where 1: "chunkStep content st p = Some st1" "rel content st1 (gadd gs (TrimSpace p))"
      using chunkStep_rel[OF Cons.prems refl False] by blast
    show ?thesis using Cons.IH[OF 1(2)] 1(1) False by simp
  qed
qed

lemma flushChunk_rel:
  assumes "rel content st gs"
  shows "\<exists>cs. flushChunk content st = Some cs \<and> map Content cs = map joinG gs
           \<and> map ChunkIndex cs = map int [0..<length cs]
           \<and> sorted (map StartPosition cs)"
proof (cases gs)
  case Nil
  then show ?thesis using assms by (simp add: rel_def flushChunk_def)
next
  case (Cons h hs)
  have g: "greedy gs" using assms by (simp add: rel_def)
  have cur: "currentChunk st = joinG (last gs)" "map Content (chunks st) = map joinG (butlast gs)"
    using assms Cons by (simp_all add: rel_def)
  have lne: "joinG (last gs) \<noteq> []" using greedy_last[OF g] Cons by simp
  have b: "0 \<le> currentStart st" "currentStart st \<le> len content" using assms by (simp_all add: rel_def)
  have idx: "chunkIndex st = int (length (chunks st))"
    "map ChunkIndex (chunks st) = map int [0..<length (chunks st)]"
    "sorted (map StartPosition (chunks st) @ [currentStart st])"
    using assms by (auto simp: rel_def sorted_append list_all_iff)
  have m: "map joinG gs = map joinG (butlast gs) @ [joinG (last gs)]"
    using Cons by (metis append_butlast_last_id list.distinct(1) list.simps(8,9) map_append)
  show ?thesis using cur lne b idx m
    by (simp add: flushChunk_def sliceFrom_def Let_def)
qed

text \<open>
  Claim C7, as amended: \<open>chunkDocument\<close> never panics; the chunks it builds are, in order
  and numbered from 0, the texts of a grouping of the non-empty trimmed pieces of the
  split on \<open>"."\<close>: no sentence is lost, reordered or split, a sentence is appended to the
  current chunk exactly while \<open>len(currentChunk) + len(sentence) < 1000\<close> (the separator
  \<open>". "\<close> is not counted), the chunk is sealed when the test fails, and what has
  accumulated at the end is flushed as the last chunk. A sentence of 1000 bytes or more
  therefore is a chunk of its own. The start offsets are non-decreasing.
\<close>

theorem chunkInfos_groups:
  "\<exists>cs gs. chunkInfos content = Some cs
      \<and> concat gs = sentences content \<and> greedy gs
      \<and> map Content cs = map joinG gs
      \<and> map ChunkIndex cs = map int [0..<length cs]
      \<and> sorted (map StartPosition cs)"
proof -
  let ?st0 = "\<lparr>chunks = [], currentChunk = [], currentStart = 0, chunkIndex = 0\<rparr>"
  let ?gs = "foldl gadd [] (sentences content)"
  have r0: "rel content ?st0 []" by (simp add: rel_def len_def)
  obtain st where 1: "chunkLoop content ?st0 (Split content (CHR ''.'')) = Some st"
       "rel content st ?gs"
    using chunkLoop_rel[OF r0, of "Split content (CHR ''.'')"] unfolding sentences_def by blast
  obtain cs where 2: "flushChunk content st = Some cs" "map Content cs = map joinG ?gs"
       "map ChunkIndex cs = map int [0..<length cs]" "sorted (map StartPosition cs)"
    using flushChunk_rel[OF 1(2)] by blast
  have ne: "list_all (\<lambda>s. s \<noteq> []) (sentences content)" by (simp add: sentences_def list_all_iff)
  have 3: "greedy ?gs" "concat ?gs = sentences content"
    using foldl_gadd[of "[]" "sentences content"] ne by simp_all
  have "chunkInfos content = Some cs" unfolding chunkInfos_def 1(1) using 2(1) by simp
  then show ?thesis using 2 3 by blast
qed

subsection \<open>The chunking rule in the words of the specification\<close>

text \<open>
  The specification splits on sentence-terminal periods and seals the chunk when
  appending the next sentence would exceed the 1000-character threshold.
  \<open>charCount\<close> counts characters (\<open>utf8.RuneCountInString\<close>); a period is
  sentence-terminal when the text ends there or white space follows (\<open>sentenceEnd\<close>),
  and \<open>spec_split\<close> splits at those periods only; \<open>spec_add\<close> compares the number
  of characters the chunk would have after the append with 1000.
  \<open>offsetsReproduce\<close> is the offset property of the specification:
  the bytes of the document between the start and the end offset equal the chunk text
  once white space is removed from both.
\<close>

definition charCount :: "string \<Rightarrow> nat" where
  "charCount s = length (runes s)"

definition sentenceEnd :: "string \<Rightarrow> bool" where
  "sentenceEnd rest =
     (case rest of [] \<Rightarrow> True
      | c # cs \<Rightarrow> c = CHR '' '' \<or> c = CHR 0x09 \<or> c = CHR 0x0A \<or> c = CHR 0x0D)"

fun spec_split :: "string \<Rightarrow> string list" where
  "spec_split [] = [[]]"
| "spec_split (c # cs) =
     (if c = CHR ''.'' \<and> sentenceEnd cs then [] # spec_split cs
      else (case spec_split cs of [] \<Rightarrow> [[c]] | p # ps \<Rightarrow> (c # p) # ps))"

definition spec_sentences :: "string \<Rightarrow> string list" where
  "spec_sentences content = filter (\<lambda>s. s \<noteq> []) (map TrimSpace (spec_split content))"

fun spec_add :: "string list list \<Rightarrow> string \<Rightarrow> string list list" where
  "spec_add [] s = [[s]]"
| "spec_add (g # gs) s =
     (if 1000 < charCount (joinG (last (g # gs) @ [s]))
      then (g # gs) @ [[s]]
      else butlast (g # gs) @ [last (g # gs) @ [s]])"

definition spec_chunks :: "string \<Rightarrow> string list" where
  "spec_chunks content = map joinG (foldl spec_add [] (spec_sentences content))"

definition removeSpace :: "string \<Rightarrow> string" where
  "removeSpace s = concat (map snd (filter (\<lambda>u. \<not> isSpace (fst u)) (runes s)))"

definition region :: "string \<Rightarrow> ChunkInfo \<Rightarrow> string option" where
  "region content c =
     (if 0 \<le> StartPosition c \<and> StartPosition c \<le> EndPosition c \<and> EndPosition c \<le> len content
      then Some (take (nat (EndPosition c) - nat (StartPosition c)) (drop (nat (StartPosition c)) content))
      else None)"

definition offsetsReproduce :: "string \<Rightarrow> ChunkInfo \<Rightarrow> bool" where
  "offsetsReproduce content c =
     (case region content c of None \<Rightarrow> False
      | Some r \<Rightarrow> removeSpace r = removeSpace (Content c))"

definition as499 :: string where
  "as499 = replicate 499 (CHR ''a'')"

definition bs500 :: string where
  "bs500 = replicate 500 (CHR ''b'')"

definition doc2 :: string where
  "doc2 = as499 @ ''. '' @ bs500"

definition es250 :: string where
  "es250 = concat (replicate 250 [CHR 0xC3, CHR 0xA9])"

definition doc3 :: string where
  "doc3 = es250 @ ''. '' @ es250"

lemma chunkInfos_contents:
  "\<exists>cs. chunkInfos content = Some cs
     \<and> map Content cs = map joinG (foldl gadd [] (sentences content))"
proof -
  let ?st0 = "\<lparr>chunks = [], currentChunk = [], currentStart = 0, chunkIndex = 0\<rparr>"
  have r0: "rel content ?st0 []" by (simp add: rel_def len_def)
  obtain st where 1: "chunkLoop content ?st0 (Split content (CHR ''.'')) = Some st"
       "rel content st (foldl gadd [] (sentences content))"
    using chunkLoop_rel[OF r0, of "Split content (CHR ''.'')"] unfolding sentences_def by blast
  obtain cs where 2: "flushChunk content st = Some cs"
       "map Content cs = map joinG (foldl gadd [] (sentences content))"
    using flushChunk_rel[OF 1(2)] by blast
  have "chunkInfos content = Some cs" unfolding chunkInfos_def 1(1) using 2(1) by simp
  then show ?thesis using 2(2) by blast
qed

lemma removeSpace_ascii:
  assumes "ascii s"
  shows "removeSpace s = filter (\<lambda>c. \<not> isSpace (of_char c)) s"
proof -
  have "concat (map snd (filter (\<lambda>u. \<not> isSpace (fst u)) (map (\<lambda>c. (of_char c, [c])) t)))
          = filter (\<lambda>c. \<not> isSpace (of_char c)) t" for t :: string
    by (induction t) simp_all
  then show ?thesis unfolding removeSpace_def runes_ascii[OF assms] .
qed

lemma ab_props: "length as499 = 499" "length bs500 = 500" "CHR ''.'' \<notin> set as499"
  "CHR ''.'' \<notin> set bs500" "ascii as499" "ascii bs500" "as499 \<noteq> []" "bs500 \<noteq> []"
  "hd as499 = CHR ''a''" "last as499 = CHR ''a''" "hd bs500 = CHR ''b''" "last bs500 = CHR ''b''"
  by (auto simp: as499_def bs500_def ascii_def list_all_iff hd_replicate last_replicate)

lemma sentences_doc2: "sentences doc2 = [as499, bs500]"
proof -
  have e: "doc2 = as499 @ CHR ''.'' # (CHR '' '' # bs500)" by (simp add: doc2_def)
  have a: "Split (as499 @ CHR ''.'' # (CHR '' '' # bs500)) (CHR ''.'')
             = as499 # Split (CHR '' '' # bs500) (CHR ''.'')"
    by (rule Split_at) (simp add: ab_props)
  have b: "Split (CHR '' '' # bs500) (CHR ''.'') = [CHR '' '' # bs500]"
    by (rule Split_none) (simp add: ab_props)
  have t1: "TrimSpace as499 = as499"
    using ab_props by (intro TrimSpace_keep) (simp_all add: isSpace_def)
  have "TrimSpace (CHR '' '' # bs500) = TrimSpace bs500"
    by (rule TrimSpace_lead) (simp_all add: isSpace_def)
  also have "\<dots> = bs500" using ab_props by (intro TrimSpace_keep) (simp_all add: isSpace_def)
  finally have t2: "TrimSpace (CHR '' '' # bs500) = bs500" .
  show ?thesis unfolding sentences_def e a b using t1 t2 ab_props by simp
qed

lemma charCount_ascii: "ascii s \<Longrightarrow> charCount s = length s"
  by (simp add: charCount_def runes_ascii)

lemma spec_split_none: "CHR ''.'' \<notin> set a \<Longrightarrow> spec_split a = [a]"
  by (induction a) auto

lemma spec_split_at:
  "CHR ''.'' \<notin> set a \<Longrightarrow> sentenceEnd b \<Longrightarrow> spec_split (a @ CHR ''.'' # b) = a # spec_split b"
  by (induction a) auto

lemma spec_sentences_doc2: "spec_sentences doc2 = [as499, bs500]"
proof -
  have e: "doc2 = as499 @ CHR ''.'' # (CHR '' '' # bs500)" by (simp add: doc2_def)
  have a: "spec_split (as499 @ CHR ''.'' # (CHR '' '' # bs500))
             = as499 # spec_split (CHR '' '' # bs500)"
    by (rule spec_split_at) (simp_all add: ab_props sentenceEnd_def)
  have b: "spec_split (CHR '' '' # bs500) = [CHR '' '' # bs500]"
    by (rule spec_split_none) (simp add: ab_props)
  have t1: "TrimSpace as499 = as499"
    using ab_props by (intro TrimSpace_keep) (simp_all add: isSpace_def)
  have "TrimSpace (CHR '' '' # bs500) = TrimSpace bs500"
    by (rule TrimSpace_lead) (simp_all add: isSpace_def)
  also have "\<dots> = bs500" using ab_props by (intro TrimSpace_keep) (simp_all add: isSpace_def)
  finally have t2: "TrimSpace (CHR '' '' # bs500) = bs500" .
  show ?thesis unfolding spec_sentences_def e a b using t1 t2 ab_props by simp
qed

abbreviation eu :: "rune \<times> string" where
  "eu \<equiv> (233, [CHR 0xC3, CHR 0xA9])"

lemma vunit_eu: "vunit eu"
  by (simp add: vunit_def EncodeRune_def invalidUnit_def RuneError_def Let_def char_of_eq_iff)

lemma vunit_ascii: "(of_char c :: nat) < 128 \<Longrightarrow> vunit (of_char c, [c])"
  by (simp add: vunit_def EncodeRune_def invalidUnit_def RuneError_def Let_def char_of_eq_iff)

lemma es250_units: "es250 = concat (map snd (replicate 250 eu))"
  by (simp add: es250_def)

lemma es_props: "length es250 = 500" "CHR ''.'' \<notin> set es250" "es250 \<noteq> []"
  by (auto simp: es250_def length_concat sum_list_replicate)

lemma runes_es250: "runes es250 = replicate 250 eu"
  unfolding es250_units by (rule runes_of_units0) (simp add: list_all_iff vunit_eu)

lemma runes_sp_es250: "runes (CHR '' '' # es250) = (32, '' '') # replicate 250 eu"
proof -
  have "runes (concat (map snd [(32::nat, '' '')]) @ es250) = [(32, '' '')] @ runes es250"
    by (rule runes_of_units)
       (simp add: vunit_def EncodeRune_def invalidUnit_def RuneError_def Let_def char_of_eq_iff)
  then show ?thesis by (simp add: runes_es250)
qed

lemma trim_es250: "TrimSpace es250 = es250" "TrimSpace (CHR '' '' # es250) = es250"
proof -
  have n: "\<not> isSpace 233" by (simp add: isSpace_def)
  have s: "isSpace 32" by (simp add: isSpace_def)
  show "TrimSpace es250 = es250"
    unfolding TrimSpace_def runes_es250 using n by (simp add: es250_def)
  show "TrimSpace (CHR '' '' # es250) = es250"
    unfolding TrimSpace_def runes_sp_es250 using n s by (simp add: es250_def)
qed

lemma sentences_doc3: "sentences doc3 = [es250, es250]"
proof -
  have e: "doc3 = es250 @ CHR ''.'' # (CHR '' '' # es250)" by (simp add: doc3_def)
  have a: "Split (es250 @ CHR ''.'' # (CHR '' '' # es250)) (CHR ''.'')
             = es250 # Split (CHR '' '' # es250) (CHR ''.'')"
    by (rule Split_at) (simp add: es_props)
  have b: "Split (CHR '' '' # es250) (CHR ''.'') = [CHR '' '' # es250]"
    by (rule Split_none) (simp add: es_props)
  show ?thesis unfolding sentences_def e a b using trim_es250 es_props by simp
qed

lemma spec_sentences_doc3: "spec_sentences doc3 = [es250, es250]"
proof -
  have e: "doc3 = es250 @ CHR ''.'' # (CHR '' '' # es250)" by (simp add: doc3_def)
  have a: "spec_split (es250 @ CHR ''.'' # (CHR '' '' # es250))
             = es250 # spec_split (CHR '' '' # es250)"
    by (rule spec_split_at) (simp_all add: es_props sentenceEnd_def)
  have b: "spec_split (CHR '' '' # es250) = [CHR '' '' # es250]"
    by (rule spec_split_none) (simp add: es_props)
  show ?thesis unfolding spec_sentences_def e a b using trim_es250 es_props by simp
qed

lemma charCount_doc3: "charCount (es250 @ ''. '' @ es250) = 502"
proof -
  let ?us = "replicate 250 eu @ [(46, ''.''), (32, '' '')] @ replicate 250 eu"
  have v: "list_all vunit ?us"
    by (simp add: list_all_iff vunit_def EncodeRune_def invalidUnit_def RuneError_def Let_def char_of_eq_iff)
  have "es250 @ ''. '' @ es250 = concat (map snd ?us)" by (simp add: es250_def)
  then have "runes (es250 @ ''. '' @ es250) = ?us" using runes_of_units0[OF v] by simp
  then show ?thesis by (simp add: charCount_def)
qed

lemma sentences_314: "sentences ''3.14'' = [''3'', ''14'']"
  by (simp add: sentences_def TrimSpace_def isSpace_def)

lemma spec_314: "spec_chunks ''3.14'' = [''3.14'']"
  by (simp add: spec_chunks_def spec_sentences_def sentenceEnd_def TrimSpace_def isSpace_def)

text \<open>
  Claim C7, as stated, fails in three ways.
  The separator is not counted: for a sentence of 499 bytes followed by one of 500
  bytes the code appends the second (499 + 500 < 1000) and stores one chunk of 1001
  characters, where the rule of the specification seals the first chunk and gives two.
  Every period is a boundary: \<open>3.14\<close> holds no sentence-terminal period and is one
  sentence for the specification, but the code splits it and stores the chunk
  \<open>3. 14\<close>.
  Lengths are byte lengths: two sentences of 250 times \<open>U+00E9\<close> (500 bytes each) make
  502 characters when joined and one chunk for the specification, but the code seals
  the first (500 + 500 is not below 1000) and stores two chunks.
\<close>

theorem chunk_rule_counterexample:
  "map_option (map Content) (chunkInfos doc2) = Some [as499 @ ''. '' @ bs500]
   \<and> charCount (as499 @ ''. '' @ bs500) = 1001
   \<and> spec_chunks doc2 = [as499, bs500]
   \<and> map_option (map Content) (chunkInfos ''3.14'') = Some [''3. 14'']
   \<and> spec_chunks ''3.14'' = [''3.14'']
   \<and> map_option (map Content) (chunkInfos doc3) = Some [es250, es250]
   \<and> charCount (es250 @ ''. '' @ es250) = 502
   \<and> spec_chunks doc3 = [es250 @ ''. '' @ es250]"
proof -
  obtain cs where cs: "chunkInfos doc2 = Some cs"
      "map Content cs = map joinG (foldl gadd [] (sentences doc2))"
    using chunkInfos_contents[of doc2] by blast
  have 1: "map_option (map Content) (chunkInfos doc2) = Some [as499 @ ''. '' @ bs500]"
    unfolding cs(1) using cs(2) unfolding sentences_doc2 by (simp add: ab_props)
  have asc: "ascii (as499 @ ''. '' @ bs500)" using ab_props by (simp add: ascii_def)
  have 2: "charCount (as499 @ ''. '' @ bs500) = 1001"
    unfolding charCount_ascii[OF asc] by (simp add: ab_props)
  have 3: "spec_chunks doc2 = [as499, bs500]"
    unfolding spec_chunks_def spec_sentences_doc2 using 2 by simp
  obtain ps where ps: "chunkInfos ''3.14'' = Some ps"
      "map Content ps = map joinG (foldl gadd [] (sentences ''3.14''))"
    using chunkInfos_contents[of "''3.14''"] by blast
  have 4: "map_option (map Content) (chunkInfos ''3.14'') = Some [''3. 14'']"
    unfolding ps(1) using ps(2) unfolding sentences_314 by simp
  obtain ds where ds: "chunkInfos doc3 = Some ds"
      "map Content ds = map joinG (foldl gadd [] (sentences doc3))"
    using chunkInfos_contents[of doc3] by blast
  have 5: "map_option (map Content) (chunkInfos doc3) = Some [es250, es250]"
    unfolding ds(1) using ds(2) unfolding sentences_doc3 by (simp add: es_props)
  have 6: "spec_chunks doc3 = [es250 @ ''. '' @ es250]"
    unfolding spec_chunks_def spec_sentences_doc3 using charCount_doc3 by simp
  show ?thesis using 1 2 3 4 spec_314 5 charCount_doc3 6 by blast
qed

text \<open>
  Claim C2 on a document whose last sentence repeats its first: \<open>"Hi. "\<close>, 995 times
  \<open>x\<close>, \<open>". Hi"\<close>. The second \<open>Hi\<close> is searched from the start of the current chunk,
  is found at offset 0, and the sealed chunk gets the empty range \<open>[0, 0)\<close> while the
  last chunk \<open>"Hi"\<close> gets the whole document \<open>[0, 1003)\<close>. Neither range reproduces
  its chunk.
\<close>

theorem chunk_offsets_counterexample:
  "chunkInfos doc1 =
     Some [\<lparr>Content = ''Hi. '' @ xs995, ChunkIndex = 0, StartPosition = 0, EndPosition = 0\<rparr>,
           \<lparr>Content = ''Hi'', ChunkIndex = 1, StartPosition = 0, EndPosition = 1003\<rparr>]
   \<and> \<not> offsetsReproduce doc1
         \<lparr>Content = ''Hi. '' @ xs995, ChunkIndex = 0, StartPosition = 0, EndPosition = 0\<rparr>
   \<and> \<not> offsetsReproduce doc1
         \<lparr>Content = ''Hi'', ChunkIndex = 1, StartPosition = 0, EndPosition = 1003\<rparr>"
proof -
  have r0: "removeSpace [] = []" by (simp add: removeSpace_def)
  have r1: "removeSpace (''Hi. '' @ xs995) \<noteq> []"
    by (simp add: removeSpace_def isSpace_def)
  have 1: "\<not> offsetsReproduce doc1
         \<lparr>Content = ''Hi. '' @ xs995, ChunkIndex = 0, StartPosition = 0, EndPosition = 0\<rparr>"
    using r0 r1 by (simp add: offsetsReproduce_def region_def len_def)
  have l: "length doc1 = 1003" by (simp add: doc1_def xs995_props)
  have a: "ascii doc1" using xs995_props(3) by (simp add: doc1_def ascii_def)
  have "length (removeSpace doc1) \<ge> 995"
  proof -
    have "removeSpace doc1 = filter (\<lambda>c. \<not> isSpace (of_char c)) doc1"
      using a by (rule removeSpace_ascii)
    also have "\<dots> = filter (\<lambda>c. \<not> isSpace (of_char c)) ''Hi. '' @
        filter (\<lambda>c. \<not> isSpace (of_char c)) xs995 @ filter (\<lambda>c. \<not> isSpace (of_char c)) ''. Hi''"
      by (simp only: doc1_def filter_append)
    also have "filter (\<lambda>c. \<not> isSpace (of_char c)) xs995 = xs995"
      by (simp add: xs995_def isSpace_def)
    finally show ?thesis by (simp add: xs995_props)
  qed
  moreover have "removeSpace ''Hi'' = ''Hi''" by (simp add: removeSpace_def isSpace_def)
  ultimately have r2: "removeSpace doc1 \<noteq> removeSpace ''Hi''" by auto
  have 2: "\<not> offsetsReproduce doc1
         \<lparr>Content = ''Hi'', ChunkIndex = 1, StartPosition = 0, EndPosition = 1003\<rparr>"
    using r2 l by (simp add: offsetsReproduce_def region_def len_def)
  show ?thesis using chunkInfos_doc1 1 2 by simp
qed

section \<open>The feature vectorizer: \<open>generateEmbedding\<close> (lines 406--444)\<close>

text \<open>
  Go's \<open>int\<close> and \<open>int64\<close> are 64-bit: \<open>i64\<close> wraps a result into that range, \<open>go_rem\<close>
  is Go's \<open>%\<close> (the remainder has the sign of the dividend). \<open>ToLower\<close> is
  \<open>strings.ToLower\<close>, which maps \<open>unicode.ToLower\<close> over the runes; the case table of
  Unicode beyond ASCII is the parameter \<open>tab\<close>. \<open>Fields\<close> is \<open>strings.Fields\<close>.

  \<open>wordHash\<close> is the map the first loop fills. The second loop ranges over that map, and
  the order in which a Go \<open>range\<close> visits the keys of a map is not specified and changes
  from one run to the next: the order is the parameter \<open>order\<close>, and \<open>rangeOrder\<close> says
  that it is an order the loop can take (each key once). The vector components are
  \<open>float32\<close> values in the code; they are modelled by the real numbers the expressions
  denote, without rounding.
\<close>

unbundle bit_operations_syntax

definition i64 :: "int \<Rightarrow> int" where
  "i64 x = (x + 9223372036854775808) mod 18446744073709551616 - 9223372036854775808"

definition go_rem :: "int \<Rightarrow> int \<Rightarrow> int" where
  "go_rem a b = sgn a * (\<bar>a\<bar> mod \<bar>b\<bar>)"

definition toLowerRune :: "(rune \<Rightarrow> rune) \<Rightarrow> rune \<Rightarrow> rune" where
  "toLowerRune tab r = (if r < 128 then (if 65 \<le> r \<and> r \<le> 90 then r + 32 else r) else tab r)"

definition ToLower :: "(rune \<Rightarrow> rune) \<Rightarrow> string \<Rightarrow> string" where
  "ToLower tab s = concat (map (\<lambda>u. EncodeRune (toLowerRune tab (fst u))) (runes s))"

fun fieldsAcc :: "(rune \<times> string) list \<Rightarrow> string \<Rightarrow> string list" where
  "fieldsAcc [] cur = (if cur = [] then [] else [cur])"
| "fieldsAcc (u # us) cur =
     (if isSpace (fst u) then (if cur = [] then fieldsAcc us [] else cur # fieldsAcc us [])
      else fieldsAcc us (cur @ snd u))"

definition Fields :: "string \<Rightarrow> string list" where
  "Fields s = fieldsAcc (runes s) []"

fun addWeights :: "int \<Rightarrow> int \<Rightarrow> string list \<Rightarrow> (string \<rightharpoonup> int) \<Rightarrow> (string \<rightharpoonup> int)" where
  "addWeights n i [] m = m"
| "addWeights n i (w # ws) m =
     addWeights n (i + 1) ws
       (m(w \<mapsto> i64 ((case m w of None \<Rightarrow> 0 | Some f \<Rightarrow> f) + i64 (n - i))))"

definition wordHash :: "string list \<Rightarrow> (string \<rightharpoonup> int)" where
  "wordHash words = addWeights (int (length words)) 0 words Map.empty"

fun hashRunes :: "int \<Rightarrow> rune list \<Rightarrow> int" where
  "hashRunes h [] = h"
| "hashRunes h (r # rs) = hashRunes (go_rem (i64 (i64 (h * 31) + int r)) 1000000) rs"

fun combineHash :: "(string \<rightharpoonup> int) \<Rightarrow> int \<Rightarrow> string list \<Rightarrow> int" where
  "combineHash m h [] = h"
| "combineHash m h (w # ws) =
     (let h1 = hashRunes h (map fst (runes w));
          freq = (case m w of None \<Rightarrow> 0 | Some f \<Rightarrow> f)
      in combineHash m (go_rem (i64 (h1 * freq)) 1000000) ws)"

definition rangeOrder :: "string list \<Rightarrow> string list \<Rightarrow> bool" where
  "rangeOrder words order = (distinct order \<and> set order = set words)"

definition nextSeed :: "int \<Rightarrow> int" where
  "nextSeed seed = i64 (i64 (seed * 1103515245) + 12345) AND 2147483647"

definition component :: "int \<Rightarrow> nat \<Rightarrow> real" where
  "component seed i = real_of_int (go_rem seed 1000) / 1000 + (real i / 1536) * (1 / 10)"

fun genVector :: "int \<Rightarrow> nat \<Rightarrow> nat \<Rightarrow> real list" where
  "genVector seed i 0 = []"
| "genVector seed i (Suc n) = component (nextSeed seed) i # genVector (nextSeed seed) (i + 1) n"

text \<open>
  The errors the service returns. \<open>status\<close> is the status column of \<open>url_queue\<close>
  (the strings \<open>'pending'\<close>, \<open>'processing'\<close>, \<open>'completed'\<close>, \<open>'failed'\<close>,
  \<open>'deleted'\<close>). \<open>dbcall\<close> names the database statements of the
  service; an error of the driver on one of them (the \<open>DB\<close> interface can fail on
  every call) is \<open>StoreError\<close>, a foreign-key violation is \<open>ForeignKeyViolation\<close>.
  \<open>generateEmbedding\<close> has the result type \<open>(pgvector.Vector, error)\<close>; it always
  returns a \<open>nil\<close> error.
\<close>

datatype status = Pending | Processing | Completed | Failed | Deleted

datatype dbcall =
    UpsertDocument | InsertChunk int | SelectNode string string | UpsertNode string string
  | UpsertEdge int int string | CountQueue | UpdateQueue status | RowsAffected
  | DeleteEdges | DeleteNodes | DeleteChunks | DeleteDocuments
  | SelectNodes | SelectEdges | SelectChunks

datatype error =
    EmbeddingError | EmptyContent | FetchError | NotFound | NoRowsUpdated
  | StoreError dbcall | ForeignKeyViolation dbcall

definition generateEmbedding :: "(rune \<Rightarrow> rune) \<Rightarrow> string list \<Rightarrow> string \<Rightarrow> error + real list" where
  "generateEmbedding tab order text0 =
     (let text = ToLower tab (TrimSpace text0);
          words = Fields text;
          combinedHash = combineHash (wordHash words) 0 order
      in Inr (genVector combinedHash 0 1536))"

definition embeddingWords :: "(rune \<Rightarrow> rune) \<Rightarrow> string \<Rightarrow> string list" where
  "embeddingWords tab text0 = Fields (ToLower tab (TrimSpace text0))"

lemma and_7fffffff: "(x::int) AND 2147483647 = x mod 2147483648"
proof -
  have "(2147483647::int) = mask 31" by (simp add: mask_eq_exp_minus_1)
  then have "x AND 2147483647 = take_bit 31 x" by (simp add: take_bit_eq_mask)
  then show ?thesis by (simp add: take_bit_eq_mod)
qed

lemma length_genVector: "length (genVector seed i n) = n"
  by (induction n arbitrary: seed i) simp_all

lemma generateEmbedding_dimension:
  "\<exists>v. generateEmbedding tab order text = Inr v \<and> length v = 1536"
  by (simp add: generateEmbedding_def Let_def length_genVector)

lemma dom_addWeights: "dom (addWeights n i ws m) = dom m \<union> set ws"
  by (induction ws arbitrary: i m) auto

lemma dom_wordHash: "dom (wordHash words) = set words"
  by (simp add: wordHash_def dom_addWeights)


lemma i64_id: "- 9223372036854775808 \<le> x \<Longrightarrow> x < 9223372036854775808 \<Longrightarrow> i64 x = x"
  by (simp add: i64_def)

lemma go_rem_nonneg: "0 \<le> a \<Longrightarrow> 0 < b \<Longrightarrow> go_rem a b = a mod b"
  by (simp add: go_rem_def sgn_if)

lemma wh: "wordHash [''a'', ''b''] = [''a'' \<mapsto> 2, ''b'' \<mapsto> 1]"
  by (simp add: wordHash_def i64_id)

lemma r1: "map fst (runes ''a'') = [97]" "map fst (runes ''b'') = [98]"
  by simp_all


lemma h1: "hashRunes 0 [97] = 97"
  by (simp add: i64_id go_rem_nonneg)

lemma hash_ab: "combineHash (wordHash [''a'', ''b'']) 0 [''a'', ''b''] = 6112"
  unfolding wh by (simp add: r1 i64_id go_rem_nonneg Let_def del: runes.simps)

lemma hash_ba: "combineHash (wordHash [''a'', ''b'']) 0 [''b'', ''a''] = 6270"
  unfolding wh by (simp add: r1 i64_id go_rem_nonneg Let_def del: runes.simps)


lemma words_ab: "embeddingWords tab ''a b'' = [''a'', ''b'']"
proof -
  have t1: "TrimSpace ''a b'' = ''a b''"
    by (simp add: TrimSpace_def isSpace_def)
  have t2: "ToLower tab ''a b'' = ''a b''"
    by (simp add: ToLower_def toLowerRune_def EncodeRune_def char_of_eq_iff)
  have t3: "Fields ''a b'' = [''a'', ''b'']"
    by (simp add: Fields_def isSpace_def)
  show ?thesis unfolding embeddingWords_def t1 t2 t3 ..
qed

lemma genVector_1536:
  "genVector seed 0 1536 = component (nextSeed seed) 0 # genVector (nextSeed seed) 1 1535"
proof -
  have "genVector seed 0 (Suc 1535) = component (nextSeed seed) 0 # genVector (nextSeed seed) (0 + 1) 1535"
    by (rule genVector.simps(2))
  then show ?thesis by simp
qed

lemma nextSeed_nonneg:
  assumes "0 \<le> seed" "seed < 2147483648"
  shows "nextSeed seed = (seed * 1103515245 + 12345) mod 2147483648"
proof -
  have "seed * 1103515245 \<le> 2147483648 * 1103515245" using assms by simp
  then have b: "seed * 1103515245 < 9223372036854775808 - 12345" by simp
  have a: "0 \<le> seed * 1103515245" using assms by simp
  have 1: "i64 (seed * 1103515245) = seed * 1103515245" using a b by (intro i64_id) simp_all
  have 2: "i64 (seed * 1103515245 + 12345) = seed * 1103515245 + 12345" using a b by (intro i64_id) simp_all
  show ?thesis unfolding nextSeed_def 1 2 and_7fffffff ..
qed

text \<open>
  Claim C9 on the text \<open>"a b"\<close>: the map has the keys \<open>a\<close> and \<open>b\<close>, and the two orders
  in which the loop can visit them give the hashes 6112 and 6270, hence vectors that
  differ in their first component (0.065 and 0.287). Two calls with the same text can
  return different vectors. (Every vector has 1536 components:
  \<open>generateEmbedding_dimension\<close>.)
\<close>

theorem generateEmbedding_order_dependent:
  "rangeOrder (embeddingWords tab ''a b'') [''a'', ''b'']
   \<and> rangeOrder (embeddingWords tab ''a b'') [''b'', ''a'']
   \<and> generateEmbedding tab [''a'', ''b''] ''a b'' \<noteq> generateEmbedding tab [''b'', ''a''] ''a b''"
proof -
  have n1: "nextSeed 6112 = 1586535065" by (simp add: nextSeed_nonneg)
  have n2: "nextSeed 6270 = 1995768287" by (simp add: nextSeed_nonneg)
  have c1: "component 1586535065 0 = 65 / 1000"
    by (simp add: component_def go_rem_nonneg)
  have c2: "component 1995768287 0 = 287 / 1000"
    by (simp add: component_def go_rem_nonneg)
  have w: "Fields (ToLower tab (TrimSpace ''a b'')) = [''a'', ''b'']"
    using words_ab by (simp add: embeddingWords_def)
  have "generateEmbedding tab [''a'', ''b''] ''a b'' \<noteq> generateEmbedding tab [''b'', ''a''] ''a b''"
    unfolding generateEmbedding_def Let_def w hash_ab hash_ba genVector_1536 n1 n2 c1 c2 by simp
  then show ?thesis unfolding words_ab by (auto simp: rangeOrder_def)
qed

section \<open>The relational store and the ingestion path\<close>

text \<open>
  The tables of \<open>migrations/init.sql\<close> as lists of rows (time stamps left out); the
  \<open>SERIAL\<close> keys come from the sequences \<open>documents_seq\<close>, \<open>chunks_seq\<close>,
  \<open>nodes_seq\<close>, \<open>edges_seq\<close>. \<open>documents.url\<close> has the unique index
  \<open>idx_documents_url_unique\<close>, \<open>knowledge_nodes\<close> is unique on \<open>(name, type)\<close>,
  \<open>knowledge_edges\<close> on \<open>(source_id, target_id, relationship_type)\<close>, and the
  \<open>document_id\<close>, \<open>source_id\<close> and \<open>target_id\<close> columns are foreign keys without an
  \<open>ON DELETE\<close> action.

  \<open>env\<close> collects what the service takes from outside: the Unicode case table, the
  order in which a \<open>range\<close> visits a map, the statements on which the database driver
  reports an error (\<open>dbFails\<close>), the failures of \<open>json.Marshal\<close> and
  \<open>json.Unmarshal\<close>, the two regular-expression extractors \<open>extractEntities\<close> and
  \<open>extractRelationships\<close> (their patterns are not modelled), and the page
  \<open>goquery\<close> fetches for a URL (title and body text, \<open>None\<close> when the fetch fails).

  A function that can panic returns an \<open>option\<close> (\<open>None\<close> is the panic); a function
  that returns a Go \<open>error\<close> returns the new database with \<open>error option\<close>.
  \<open>ProcessURL\<close> starts the extraction in a goroutine; the model runs it before the
  final status update.
\<close>

type_synonym vector = "real list"

record Document =
  doc_id :: int
  doc_url :: string
  doc_title :: string
  doc_content :: string
  doc_embedding :: vector

record Chunk =
  chunk_id :: int
  chunk_document_id :: int
  chunk_content :: string
  chunk_embedding :: "vector option"
  chunk_index :: int
  start_position :: int
  end_position :: int

record KnowledgeNode =
  node_id :: int
  node_name :: string
  node_type :: string
  node_properties :: string
  node_embedding :: vector
  node_document_id :: "int option"

record KnowledgeEdge =
  edge_id :: int
  source_id :: int
  target_id :: int
  relationship_type :: string
  edge_properties :: string
  edge_document_id :: "int option"

record QueueItem =
  queue_id :: int
  queue_url :: string
  queue_status :: status
  queue_error :: "error option"
  retry_count :: int

record db =
  documents :: "Document list"
  chunk_rows :: "Chunk list"
  knowledge_nodes :: "KnowledgeNode list"
  knowledge_edges :: "KnowledgeEdge list"
  url_queue :: "QueueItem list"
  documents_seq :: int
  chunks_seq :: int
  nodes_seq :: int
  edges_seq :: int

record Entity =
  entity_name :: string
  entity_type :: string
  entity_properties :: string

record Relationship =
  rel_source :: int
  rel_target :: int
  rel_type :: string
  rel_properties :: string

record ProcessDocumentRequest =
  req_url :: string
  req_title :: string
  req_content :: string

record env =
  unicodeLower :: "rune \<Rightarrow> rune"
  keyOrder :: "string list \<Rightarrow> string list"
  dbFails :: "dbcall \<Rightarrow> bool"
  marshalFails :: "string \<Rightarrow> bool"
  unmarshalFails :: "string \<Rightarrow> bool"
  extractEntities :: "string \<Rightarrow> Entity list"
  extractRelationships :: "string \<Rightarrow> (string \<rightharpoonup> int) \<Rightarrow> Relationship list"
  fetchPage :: "string \<Rightarrow> (string \<times> string) option"

definition embed :: "env \<Rightarrow> string \<Rightarrow> error + vector" where
  "embed e text =
     generateEmbedding (unicodeLower e) (keyOrder e (embeddingWords (unicodeLower e) text)) text"

definition document_ids :: "db \<Rightarrow> int set" where
  "document_ids d = set (map doc_id (documents d))"

definition node_ids :: "db \<Rightarrow> int set" where
  "node_ids d = set (map node_id (knowledge_nodes d))"

definition upsertDocument :: "db \<Rightarrow> string \<Rightarrow> string \<Rightarrow> string \<Rightarrow> vector \<Rightarrow> db \<times> int" where
  "upsertDocument d url title content emb =
     (let newid = documents_seq d + 1 in
      case find (\<lambda>x. doc_url x = url) (documents d) of
        Some old \<Rightarrow>
          (d\<lparr>documents :=
               map (\<lambda>x. if doc_url x = url
                         then x\<lparr>doc_title := title, doc_content := content, doc_embedding := emb\<rparr>
                         else x) (documents d),
             documents_seq := newid\<rparr>,
           doc_id old)
      | None \<Rightarrow>
          (d\<lparr>documents := documents d @
               [\<lparr>doc_id = newid, doc_url = url, doc_title = title, doc_content = content,
                 doc_embedding = emb\<rparr>],
             documents_seq := newid\<rparr>,
           newid))"

definition insertChunk :: "env \<Rightarrow> db \<Rightarrow> int \<Rightarrow> ChunkInfo \<Rightarrow> vector option \<Rightarrow> db" where
  "insertChunk e d documentID c emb =
     (if dbFails e (InsertChunk (ChunkIndex c)) \<or> documentID \<notin> document_ids d then d
      else d\<lparr>chunk_rows := chunk_rows d @
               [\<lparr>chunk_id = chunks_seq d + 1, chunk_document_id = documentID,
                 chunk_content = Content c, chunk_embedding = emb, chunk_index = ChunkIndex c,
                 start_position = StartPosition c, end_position = EndPosition c\<rparr>],
             chunks_seq := chunks_seq d + 1\<rparr>)"

fun storeChunks :: "env \<Rightarrow> int \<Rightarrow> ChunkInfo list \<Rightarrow> db \<Rightarrow> db" where
  "storeChunks e documentID [] d = d"
| "storeChunks e documentID (c # cs) d =
     storeChunks e documentID cs
       (case embed e (Content c) of
          Inl err \<Rightarrow> insertChunk e d documentID c None
        | Inr emb \<Rightarrow> insertChunk e d documentID c (Some emb))"

definition chunkDocument :: "env \<Rightarrow> db \<Rightarrow> int \<Rightarrow> string \<Rightarrow> (db \<times> error option) option" where
  "chunkDocument e d documentID content =
     (case chunkInfos content of
        None \<Rightarrow> None
      | Some cs \<Rightarrow> Some (storeChunks e documentID cs d, None))"

definition upsertNode :: "env \<Rightarrow> db \<Rightarrow> int \<Rightarrow> Entity \<Rightarrow> vector \<Rightarrow> (db \<times> int) option" where
  "upsertNode e d documentID x emb =
     (if dbFails e (UpsertNode (entity_name x) (entity_type x)) \<or> documentID \<notin> document_ids d
      then None
      else
        (case find (\<lambda>n. node_name n = entity_name x \<and> node_type n = entity_type x)
                (knowledge_nodes d) of
           Some old \<Rightarrow>
             Some (d\<lparr>knowledge_nodes :=
                      map (\<lambda>n. if node_name n = entity_name x \<and> node_type n = entity_type x
                                then n\<lparr>node_properties := entity_properties x,
                                       node_embedding := emb,
                                       node_document_id := Some documentID\<rparr>
                                else n) (knowledge_nodes d),
                    nodes_seq := nodes_seq d + 1\<rparr>,
                   node_id old)
         | None \<Rightarrow>
             Some (d\<lparr>knowledge_nodes := knowledge_nodes d @
                      [\<lparr>node_id = nodes_seq d + 1, node_name = entity_name x,
                        node_type = entity_type x, node_properties = entity_properties x,
                        node_embedding = emb, node_document_id = Some documentID\<rparr>],
                    nodes_seq := nodes_seq d + 1\<rparr>,
                   nodes_seq d + 1)))"

fun storeEntities ::
  "env \<Rightarrow> int \<Rightarrow> Entity list \<Rightarrow> db \<Rightarrow> (string \<rightharpoonup> int) \<Rightarrow> db \<times> (string \<rightharpoonup> int)" where
  "storeEntities e documentID [] d entityMap = (d, entityMap)"
| "storeEntities e documentID (x # xs) d entityMap =
     (if dbFails e (SelectNode (entity_name x) (entity_type x))
      then storeEntities e documentID xs d entityMap
      else
        (case find (\<lambda>n. node_name n = entity_name x \<and> node_type n = entity_type x)
                (knowledge_nodes d) of
           Some existing \<Rightarrow>
             storeEntities e documentID xs d (entityMap(entity_name x \<mapsto> node_id existing))
         | None \<Rightarrow>
             (case embed e (entity_name x) of
                Inl err \<Rightarrow> storeEntities e documentID xs d entityMap
              | Inr emb \<Rightarrow>
                  if marshalFails e (entity_properties x)
                  then storeEntities e documentID xs d entityMap
                  else
                    (case upsertNode e d documentID x emb of
                       None \<Rightarrow> storeEntities e documentID xs d entityMap
                     | Some (d', newid) \<Rightarrow>
                         storeEntities e documentID xs d' (entityMap(entity_name x \<mapsto> newid))))))"

definition upsertEdge :: "env \<Rightarrow> db \<Rightarrow> int \<Rightarrow> Relationship \<Rightarrow> db" where
  "upsertEdge e d documentID r =
     (if dbFails e (UpsertEdge (rel_source r) (rel_target r) (rel_type r))
         \<or> documentID \<notin> document_ids d \<or> rel_source r \<notin> node_ids d \<or> rel_target r \<notin> node_ids d
      then d
      else
        (case find (\<lambda>x. source_id x = rel_source r \<and> target_id x = rel_target r
                          \<and> relationship_type x = rel_type r) (knowledge_edges d) of
           Some old \<Rightarrow>
             d\<lparr>knowledge_edges :=
                 map (\<lambda>x. if source_id x = rel_source r \<and> target_id x = rel_target r
                              \<and> relationship_type x = rel_type r
                           then x\<lparr>edge_properties := rel_properties r,
                                  edge_document_id := Some documentID\<rparr>
                           else x) (knowledge_edges d),
               edges_seq := edges_seq d + 1\<rparr>
         | None \<Rightarrow>
             d\<lparr>knowledge_edges := knowledge_edges d @
                 [\<lparr>edge_id = edges_seq d + 1, source_id = rel_source r, target_id = rel_target r,
                   relationship_type = rel_type r, edge_properties = rel_properties r,
                   edge_document_id = Some documentID\<rparr>],
               edges_seq := edges_seq d + 1\<rparr>))"

fun storeRelationships :: "env \<Rightarrow> int \<Rightarrow> Relationship list \<Rightarrow> db \<Rightarrow> db" where
  "storeRelationships e documentID [] d = d"
| "storeRelationships e documentID (r # rs) d =
     (if marshalFails e (rel_properties r) then storeRelationships e documentID rs d
      else storeRelationships e documentID rs (upsertEdge e d documentID r))"

definition ExtractEntitiesAndRelations :: "env \<Rightarrow> db \<Rightarrow> int \<Rightarrow> string \<Rightarrow> db \<times> error option" where
  "ExtractEntitiesAndRelations e d documentID content =
     (let entities = extractEntities e content;
          stored = storeEntities e documentID entities d Map.empty;
          relationships = extractRelationships e content (snd stored)
      in (storeRelationships e documentID relationships (fst stored), None))"

definition ProcessDocument ::
  "env \<Rightarrow> db \<Rightarrow> ProcessDocumentRequest \<Rightarrow> (db \<times> error option) option" where
  "ProcessDocument e d req =
     (let cleanedContent = cleanContent (req_content req) in
      if cleanedContent = [] then Some (d, Some EmptyContent)
      else
        (case embed e cleanedContent of
           Inl err \<Rightarrow> Some (d, Some err)
         | Inr embedding \<Rightarrow>
             if dbFails e UpsertDocument then Some (d, Some (StoreError UpsertDocument))
             else
               (let stored = upsertDocument d (req_url req) (req_title req) cleanedContent embedding;
                    documentID = snd stored
                in case chunkDocument e (fst stored) documentID cleanedContent of
                     None \<Rightarrow> None
                   | Some (d2, chunkErr) \<Rightarrow>
                       Some (fst (ExtractEntitiesAndRelations e d2 documentID cleanedContent), None))))"

definition setQueueStatus :: "db \<Rightarrow> string \<Rightarrow> status \<Rightarrow> error option \<Rightarrow> db" where
  "setQueueStatus d url st err =
     d\<lparr>url_queue :=
         map (\<lambda>q. if queue_url q = url
                   then (case err of None \<Rightarrow> q\<lparr>queue_status := st\<rparr>
                         | Some msg \<Rightarrow> q\<lparr>queue_status := st, queue_error := Some msg\<rparr>)
                   else q) (url_queue d)\<rparr>"

definition markFailed :: "env \<Rightarrow> db \<Rightarrow> string \<Rightarrow> error \<Rightarrow> db" where
  "markFailed e d url err =
     (if dbFails e (UpdateQueue Failed) then d else setQueueStatus d url Failed (Some err))"

definition fetchContent :: "env \<Rightarrow> string \<Rightarrow> error + (string \<times> string)" where
  "fetchContent e url =
     (case fetchPage e url of
        None \<Rightarrow> Inl FetchError
      | Some (title0, body) \<Rightarrow>
          (let title = (if title0 = [] then url else title0);
               content = cleanContent body
           in if content = [] then Inl FetchError else Inr (content, title)))"

definition ProcessURL :: "env \<Rightarrow> db \<Rightarrow> string \<Rightarrow> (db \<times> error option) option" where
  "ProcessURL e d url =
     (if dbFails e (UpdateQueue Processing) then Some (d, Some (StoreError (UpdateQueue Processing)))
      else
        (let d0 = setQueueStatus d url Processing None in
         case fetchContent e url of
           Inl err \<Rightarrow> Some (markFailed e d0 url err, Some err)
         | Inr (content0, title) \<Rightarrow>
             (let content = cleanContent content0 in
              case embed e content of
                Inl err \<Rightarrow> Some (markFailed e d0 url err, Some err)
              | Inr embedding \<Rightarrow>
                  if dbFails e UpsertDocument
                  then Some (markFailed e d0 url (StoreError UpsertDocument),
                             Some (StoreError UpsertDocument))
                  else
                    (let stored = upsertDocument d0 url title content embedding;
                         documentID = snd stored
                     in case chunkDocument e (fst stored) documentID content of
                          None \<Rightarrow> None
                        | Some (d2, chunkErr) \<Rightarrow>
                            (let d3 = fst (ExtractEntitiesAndRelations e d2 documentID content)
                             in Some (if dbFails e (UpdateQueue Completed) then d3
                                      else setQueueStatus d3 url Completed None, None))))))"

subsection \<open>Ingesting the same URL twice\<close>

datatype ingestion = Inline ProcessDocumentRequest | FromURL string

fun ingest :: "env \<Rightarrow> db \<Rightarrow> ingestion \<Rightarrow> (db \<times> error option) option" where
  "ingest e d (Inline req) = ProcessDocument e d req"
| "ingest e d (FromURL url) = ProcessURL e d url"

fun ingest_url :: "ingestion \<Rightarrow> string" where
  "ingest_url (Inline req) = req_url req"
| "ingest_url (FromURL url) = url"

fun ingestPayload :: "env \<Rightarrow> ingestion \<Rightarrow> (string \<times> string \<times> vector) option" where
  "ingestPayload e (Inline req) =
     (let content = cleanContent (req_content req) in
      case embed e content of Inl err \<Rightarrow> None | Inr v \<Rightarrow> Some (req_title req, content, v))"
| "ingestPayload e (FromURL url) =
     (case fetchContent e url of
        Inl err \<Rightarrow> None
      | Inr (content0, title) \<Rightarrow>
          (let content = cleanContent content0 in
           case embed e content of Inl err \<Rightarrow> None | Inr v \<Rightarrow> Some (title, content, v)))"

text \<open>
  \<open>accepts e i\<close> says that the ingestion \<open>i\<close> meets none of the errors that
  \<open>ProcessDocument\<close> or \<open>ProcessURL\<close> return: the content is not empty after
  cleaning, the page can be fetched, and the statements that set the queue status to
  \<open>processing\<close> and that store the document do not fail.
\<close>

fun accepts :: "env \<Rightarrow> ingestion \<Rightarrow> bool" where
  "accepts e (Inline req) =
     (cleanContent (req_content req) \<noteq> [] \<and> \<not> dbFails e UpsertDocument)"
| "accepts e (FromURL url) =
     (\<not> dbFails e (UpdateQueue Processing)
      \<and> (case fetchPage e url of None \<Rightarrow> False | Some (title, body) \<Rightarrow> cleanContent body \<noteq> [])
      \<and> \<not> dbFails e UpsertDocument)"

definition rowsFor :: "string \<Rightarrow> db \<Rightarrow> Document list" where
  "rowsFor url d = filter (\<lambda>x. doc_url x = url) (documents d)"

lemma embed_ok: "\<exists>v. embed e t = Inr v \<and> length v = 1536"
  unfolding embed_def by (rule generateEmbedding_dimension)

lemma chunkInfos_total: "\<exists>cs. chunkInfos content = Some cs"
  using chunkInfos_contents[of content] by blast

lemma documents_insertChunk [simp]: "documents (insertChunk e d i c v) = documents d"
  by (simp add: insertChunk_def)

lemma documents_storeChunks [simp]: "documents (storeChunks e i cs d) = documents d"
  by (induction cs arbitrary: d) (simp_all split: sum.splits)

lemma chunkDocument_total:
  "\<exists>d2. chunkDocument e d i content = Some (d2, None) \<and> documents d2 = documents d"
  using chunkInfos_total[of content] by (auto simp: chunkDocument_def)

lemma documents_upsertNode: "upsertNode e d i x v = Some (d', n) \<Longrightarrow> documents d' = documents d"
  by (auto simp: upsertNode_def split: if_splits option.splits)

lemma documents_storeEntities [simp]: "documents (fst (storeEntities e i xs d m)) = documents d"
proof (induction xs arbitrary: d m)
  case Nil
  then show ?case by simp
next
  case (Cons x xs)
  show ?case
    using Cons.IH documents_upsertNode
    by (auto split: option.splits sum.splits)
qed

lemma documents_upsertEdge [simp]: "documents (upsertEdge e d i r) = documents d"
  by (simp add: upsertEdge_def split: option.splits)

lemma documents_storeRelationships [simp]: "documents (storeRelationships e i rs d) = documents d"
  by (induction rs arbitrary: d) simp_all

lemma documents_Extract [simp]:
  "documents (fst (ExtractEntitiesAndRelations e d i c)) = documents d"
  by (simp add: ExtractEntitiesAndRelations_def Let_def)

lemma documents_setQueueStatus [simp]: "documents (setQueueStatus d u s err) = documents d"
  by (simp add: setQueueStatus_def)

lemma documents_markFailed [simp]: "documents (markFailed e d u err) = documents d"
  by (simp add: markFailed_def)

lemma filter_distinct_key:
  "distinct (map f xs) \<Longrightarrow> filter (\<lambda>x. f x = k) xs = [] \<or> (\<exists>x. filter (\<lambda>x. f x = k) xs = [x])"
proof (induction xs)
  case Nil
  then show ?case by simp
next
  case (Cons a xs)
  show ?case
  proof (cases "f a = k")
    case True
    then have "filter (\<lambda>x. f x = k) xs = []" using Cons.prems
      by (auto simp: filter_empty_conv image_iff)
    then show ?thesis using True by simp
  next
    case False
    then show ?thesis using Cons by simp
  qed
qed

lemma find_filter: "find P xs = (case filter P xs of [] \<Rightarrow> None | x # _ \<Rightarrow> Some x)"
  by (induction xs) simp_all

lemma upsertDocument_rows:
  assumes "distinct (map doc_url (documents d))"
  shows "\<exists>row. rowsFor url (fst (upsertDocument d url title content emb)) = [row]
           \<and> doc_title row = title \<and> doc_content row = content \<and> doc_embedding row = emb
           \<and> doc_id row = snd (upsertDocument d url title content emb)
           \<and> distinct (map doc_url (documents (fst (upsertDocument d url title content emb))))
           \<and> (\<forall>old. rowsFor url d = [old] \<longrightarrow>
                  doc_id row = doc_id old
                  \<and> length (documents (fst (upsertDocument d url title content emb)))
                      = length (documents d))"
proof -
  let ?P = "\<lambda>x. doc_url x = url"
  let ?upd = "\<lambda>x. if doc_url x = url
               then x\<lparr>doc_title := title, doc_content := content, doc_embedding := emb\<rparr> else x"
  from filter_distinct_key[OF assms, of url]
  consider "filter ?P (documents d) = []" | old where "filter ?P (documents d) = [old]" by blast
  then show ?thesis
  proof cases
    case 1
    then have f: "find ?P (documents d) = None" by (simp add: find_filter)
    have "url \<notin> set (map doc_url (documents d))" using 1 by (auto simp: filter_empty_conv)
    then show ?thesis using 1 f assms
      by (simp add: upsertDocument_def rowsFor_def Let_def)
  next
    case 2
    then have f: "find ?P (documents d) = Some old" by (simp add: find_filter)
    have m: "doc_url \<circ> ?upd = doc_url" by (rule ext) simp
    have g: "filter ?P (map ?upd xs) = map ?upd (filter ?P xs)" for xs by (induction xs) simp_all
    have "old \<in> set (filter ?P (documents d))" using 2 by simp
    then have ou: "doc_url old = url" by simp
    let ?d' = "d\<lparr>documents := map ?upd (documents d), documents_seq := documents_seq d + 1\<rparr>"
    have u: "upsertDocument d url title content emb = (?d', doc_id old)"
      using f by (simp add: upsertDocument_def Let_def)
    have r: "rowsFor url ?d' = [?upd old]"
      unfolding rowsFor_def using g[of "documents d"] 2 by simp
    have dd: "distinct (map doc_url (documents ?d'))" using assms by (simp add: m)
    have r0: "rowsFor url d = [old]" using 2 by (simp add: rowsFor_def)
    show ?thesis unfolding u fst_conv snd_conv r r0 using ou dd by simp
  qed
qed


lemma rowsFor_cong: "documents a = documents b \<Longrightarrow> rowsFor url a = rowsFor url b"
  by (simp add: rowsFor_def)

lemma ProcessDocument_success:
  assumes "ProcessDocument e d req = Some (d', None)"
  shows "\<exists>t c v. ingestPayload e (Inline req) = Some (t, c, v)
           \<and> documents d' = documents (fst (upsertDocument d (req_url req) t c v))"
proof -
  let ?c = "cleanContent (req_content req)"
  obtain v where v: "embed e ?c = Inr v" using embed_ok by blast
  have ne: "?c \<noteq> []" using assms by (auto simp: ProcessDocument_def Let_def)
  have nf: "\<not> dbFails e UpsertDocument"
    using assms ne v by (auto simp: ProcessDocument_def Let_def split: if_splits)
  let ?st = "upsertDocument d (req_url req) (req_title req) ?c v"
  obtain d2 where d2: "chunkDocument e (fst ?st) (snd ?st) ?c = Some (d2, None)"
      "documents d2 = documents (fst ?st)"
    using chunkDocument_total by blast
  have "d' = fst (ExtractEntitiesAndRelations e d2 (snd ?st) ?c)"
    using assms ne v nf d2(1) by (simp add: ProcessDocument_def Let_def)
  then have "documents d' = documents (fst ?st)" using d2(2) by simp
  then show ?thesis using v by (simp add: Let_def)
qed

lemma ProcessURL_success:
  assumes "ProcessURL e d url = Some (d', None)"
  shows "\<exists>t c v dq. ingestPayload e (FromURL url) = Some (t, c, v)
           \<and> documents dq = documents d
           \<and> documents d' = documents (fst (upsertDocument dq url t c v))"
proof -
  have nf0: "\<not> dbFails e (UpdateQueue Processing)"
    using assms by (auto simp: ProcessURL_def split: if_splits)
  let ?d0 = "setQueueStatus d url Processing None"
  obtain c0 t where f: "fetchContent e url = Inr (c0, t)"
    using assms nf0 by (cases "fetchContent e url") (auto simp: ProcessURL_def Let_def)
  let ?c = "cleanContent c0"
  obtain v where v: "embed e ?c = Inr v" using embed_ok by blast
  have nf: "\<not> dbFails e UpsertDocument"
    using assms nf0 f v by (auto simp: ProcessURL_def Let_def split: if_splits)
  let ?st = "upsertDocument ?d0 url t ?c v"
  obtain d2 where d2: "chunkDocument e (fst ?st) (snd ?st) ?c = Some (d2, None)"
      "documents d2 = documents (fst ?st)"
    using chunkDocument_total by blast
  let ?d3 = "fst (ExtractEntitiesAndRelations e d2 (snd ?st) ?c)"
  have "d' = (if dbFails e (UpdateQueue Completed) then ?d3 else setQueueStatus ?d3 url Completed None)"
    using assms nf0 f v nf d2(1) by (simp add: ProcessURL_def Let_def)
  then have a: "documents d' = documents (fst (upsertDocument ?d0 url t ?c v))" using d2(2) by simp
  have b: "documents ?d0 = documents d" by simp
  have c: "ingestPayload e (FromURL url) = Some (t, ?c, v)" using f v by (simp add: Let_def)
  show ?thesis using a b c by blast
qed

lemma ingest_success:
  assumes "ingest e d i = Some (d', None)"
  shows "\<exists>t c v dq. ingestPayload e i = Some (t, c, v)
           \<and> documents dq = documents d
           \<and> documents d' = documents (fst (upsertDocument dq (ingest_url i) t c v))"
proof (cases i)
  case (Inline req)
  then show ?thesis using ProcessDocument_success[of e d req d'] assms by auto
next
  case (FromURL url)
  then show ?thesis using ProcessURL_success[of e d url d'] assms by auto
qed

lemma ProcessDocument_total:
  "\<exists>d' r. ProcessDocument e d req = Some (d', r)
      \<and> (r = None) = accepts e (Inline req)
      \<and> (r \<noteq> None \<longrightarrow> documents d' = documents d)"
proof -
  let ?c = "cleanContent (req_content req)"
  obtain v where v: "embed e ?c = Inr v" using embed_ok by blast
  let ?st = "upsertDocument d (req_url req) (req_title req) ?c v"
  obtain d2 where d2: "chunkDocument e (fst ?st) (snd ?st) ?c = Some (d2, None)"
    using chunkDocument_total by blast
  show ?thesis using v d2 by (simp add: ProcessDocument_def Let_def)
qed

lemma ProcessURL_total:
  "\<exists>d' r. ProcessURL e d url = Some (d', r)
      \<and> (r = None) = accepts e (FromURL url)
      \<and> (r \<noteq> None \<longrightarrow> documents d' = documents d)"
proof (cases "dbFails e (UpdateQueue Processing)")
  case True
  then show ?thesis by (simp add: ProcessURL_def)
next
  case nf0: False
  let ?d0 = "setQueueStatus d url Processing None"
  show ?thesis
  proof (cases "fetchContent e url")
    case (Inl err)
    then have "\<not> (case fetchPage e url of None \<Rightarrow> False
                  | Some (title, body) \<Rightarrow> cleanContent body \<noteq> [])"
      by (auto simp: fetchContent_def Let_def split: option.splits prod.splits if_splits)
    then show ?thesis using nf0 Inl by (simp add: ProcessURL_def Let_def)
  next
    case (Inr p)
    obtain c0 t where p: "p = (c0, t)" by (cases p)
    have f: "fetchContent e url = Inr (c0, t)" using Inr p by simp
    have ok: "(case fetchPage e url of None \<Rightarrow> False
                | Some (title, body) \<Rightarrow> cleanContent body \<noteq> [])"
      using f by (auto simp: fetchContent_def Let_def split: option.splits prod.splits if_splits)
    let ?c = "cleanContent c0"
    obtain v where v: "embed e ?c = Inr v" using embed_ok by blast
    let ?st = "upsertDocument ?d0 url t ?c v"
    obtain d2 where d2: "chunkDocument e (fst ?st) (snd ?st) ?c = Some (d2, None)"
      using chunkDocument_total by blast
    show ?thesis using nf0 f ok v d2 by (simp add: ProcessURL_def Let_def)
  qed
qed

lemma ingest_total:
  "\<exists>d' r. ingest e d i = Some (d', r)
      \<and> (r = None) = accepts e i
      \<and> (r \<noteq> None \<longrightarrow> documents d' = documents d)"
proof (cases i)
  case (Inline req)
  then show ?thesis using ProcessDocument_total[of e d req] by simp
next
  case (FromURL url)
  then show ?thesis using ProcessURL_total[of e d url] by simp
qed

text \<open>
  Claim C1: when the \<open>documents\<close> table satisfies its unique index on \<open>url\<close> and the
  same URL is ingested twice, each time through \<open>ProcessDocument\<close> or
  \<open>ProcessURL\<close>, then neither ingestion panics and each returns no error exactly when
  it is accepted. After an accepted first ingestion the URL has exactly one row, and
  after the second ingestion it still has exactly one row: the same row (same id, the
  table has not grown), which holds the title, the cleaned content and the embedding of
  the second ingestion when that one is accepted and is unchanged when it is not.
\<close>

theorem reingest_same_url:
  assumes uniq: "distinct (map doc_url (documents d))"
      and same: "ingest_url i1 = ingest_url i2"
  shows "\<exists>d1 r1 d2 r2.
           ingest e1 d i1 = Some (d1, r1) \<and> (r1 = None) = accepts e1 i1
         \<and> ingest e2 d1 i2 = Some (d2, r2) \<and> (r2 = None) = accepts e2 i2
         \<and> (accepts e1 i1 \<longrightarrow>
              (\<exists>row1 row2.
                   rowsFor (ingest_url i2) d1 = [row1]
                 \<and> rowsFor (ingest_url i2) d2 = [row2]
                 \<and> doc_id row2 = doc_id row1
                 \<and> length (documents d2) = length (documents d1)
                 \<and> (if accepts e2 i2
                    then ingestPayload e2 i2
                           = Some (doc_title row2, doc_content row2, doc_embedding row2)
                    else row2 = row1)))"
proof -
  let ?u = "ingest_url i2"
  obtain d1 r1 where a: "ingest e1 d i1 = Some (d1, r1)" "(r1 = None) = accepts e1 i1"
    using ingest_total[of e1 d i1] by blast
  obtain d2 r2 where b: "ingest e2 d1 i2 = Some (d2, r2)" "(r2 = None) = accepts e2 i2"
      "r2 \<noteq> None \<longrightarrow> documents d2 = documents d1"
    using ingest_total[of e2 d1 i2] by blast
  have c: "\<exists>row1 row2.
                   rowsFor ?u d1 = [row1]
                 \<and> rowsFor ?u d2 = [row2]
                 \<and> doc_id row2 = doc_id row1
                 \<and> length (documents d2) = length (documents d1)
                 \<and> (if accepts e2 i2
                    then ingestPayload e2 i2
                           = Some (doc_title row2, doc_content row2, doc_embedding row2)
                    else row2 = row1)" if ok1: "accepts e1 i1"
  proof -
    have first: "ingest e1 d i1 = Some (d1, None)" using a ok1 by simp
    obtain t1 c1 v1 dq1 where 1: "documents dq1 = documents d"
        "documents d1 = documents (fst (upsertDocument dq1 ?u t1 c1 v1))"
      using ingest_success[OF first] same by auto
    have u1: "distinct (map doc_url (documents dq1))" using uniq 1(1) by simp
    obtain row1 where r1: "rowsFor ?u (fst (upsertDocument dq1 ?u t1 c1 v1)) = [row1]"
        "distinct (map doc_url (documents (fst (upsertDocument dq1 ?u t1 c1 v1))))"
      using upsertDocument_rows[OF u1, of ?u t1 c1 v1] by blast
    have r1': "rowsFor ?u d1 = [row1]" using r1(1) rowsFor_cong[OF 1(2)] by simp
    have dd1: "distinct (map doc_url (documents d1))" using r1(2) 1(2) by simp
    show ?thesis
    proof (cases "accepts e2 i2")
      case False
      then have "documents d2 = documents d1" using b by simp
      then show ?thesis using r1' False rowsFor_cong[of d2 d1 ?u] by simp
    next
      case True
      then have second: "ingest e2 d1 i2 = Some (d2, None)" using b by simp
      obtain t2 c2 v2 dq2 where 2: "ingestPayload e2 i2 = Some (t2, c2, v2)"
          "documents dq2 = documents d1"
          "documents d2 = documents (fst (upsertDocument dq2 ?u t2 c2 v2))"
        using ingest_success[OF second] by auto
      have u2: "distinct (map doc_url (documents dq2))" using dd1 2(2) by simp
      have q2: "rowsFor ?u dq2 = [row1]" using r1' rowsFor_cong[OF 2(2)] by simp
      obtain row2 where r2: "rowsFor ?u (fst (upsertDocument dq2 ?u t2 c2 v2)) = [row2]"
          "doc_title row2 = t2" "doc_content row2 = c2" "doc_embedding row2 = v2"
          "doc_id row2 = doc_id row1"
          "length (documents (fst (upsertDocument dq2 ?u t2 c2 v2))) = length (documents dq2)"
        using upsertDocument_rows[OF u2, of ?u t2 c2 v2] q2 by blast
      have "rowsFor ?u d2 = [row2]" using r2(1) rowsFor_cong[OF 2(3)] by simp
      moreover have "length (documents d2) = length (documents d1)" using r2(6) 2(2,3) by simp
      ultimately show ?thesis using r1' r2(2-5) 2(1) True by simp
    qed
  qed
  show ?thesis using a b(1,2) c by blast
qed

text \<open>
  Claim C8: \<open>ProcessDocument\<close> never panics, and it returns an error exactly when the
  cleaned content is empty, the embedding fails or the statement that stores the
  document fails. The statement holds for every \<open>env\<close>: no failure of a chunk insert,
  of a node lookup or upsert, of an edge upsert or of the JSON encoding makes it return
  an error.
\<close>

theorem ProcessDocument_error_iff:
  "\<exists>d' r. ProcessDocument e d req = Some (d', r)
      \<and> ((r \<noteq> None) =
           (cleanContent (req_content req) = []
            \<or> isl (embed e (cleanContent (req_content req)))
            \<or> dbFails e UpsertDocument))"
proof -
  let ?c = "cleanContent (req_content req)"
  obtain v where v: "embed e ?c = Inr v" using embed_ok by blast
  let ?st = "upsertDocument d (req_url req) (req_title req) ?c v"
  obtain d2 where d2: "chunkDocument e (fst ?st) (snd ?st) ?c = Some (d2, None)"
    using chunkDocument_total by blast
  show ?thesis using v d2 by (simp add: ProcessDocument_def Let_def)
qed

subsection \<open>\<open>DeleteURL\<close> (lines 574--657)\<close>

text \<open>
  \<open>deleteDependents\<close> is the sequence of the four \<open>DELETE\<close> statements. A
  \<open>DELETE\<close> of a row that a foreign key of a remaining row refers to fails
  (\<open>ForeignKeyViolation\<close>); the statements are not in a transaction, so what was
  done before the failure stays.
\<close>

definition docIdsOf :: "db \<Rightarrow> string \<Rightarrow> int list" where
  "docIdsOf d url = map doc_id (filter (\<lambda>x. doc_url x = url) (documents d))"

definition refersTo :: "int list \<Rightarrow> int option \<Rightarrow> bool" where
  "refersTo ids ref = (case ref of None \<Rightarrow> False | Some i \<Rightarrow> i \<in> set ids)"

definition deleteDependents :: "env \<Rightarrow> db \<Rightarrow> string \<Rightarrow> db \<times> error option" where
  "deleteDependents e d url =
     (if dbFails e DeleteEdges then (d, Some (StoreError DeleteEdges))
      else
        (let d2 = d\<lparr>knowledge_edges :=
                      filter (\<lambda>x. \<not> refersTo (docIdsOf d url) (edge_document_id x))
                        (knowledge_edges d)\<rparr>;
             doomed = map node_id
                        (filter (\<lambda>n. refersTo (docIdsOf d2 url) (node_document_id n))
                           (knowledge_nodes d2))
         in if dbFails e DeleteNodes then (d2, Some (StoreError DeleteNodes))
            else if list_ex (\<lambda>x. source_id x \<in> set doomed \<or> target_id x \<in> set doomed)
                      (knowledge_edges d2)
            then (d2, Some (ForeignKeyViolation DeleteNodes))
            else
              (let d3 = d2\<lparr>knowledge_nodes :=
                            filter (\<lambda>n. \<not> refersTo (docIdsOf d2 url) (node_document_id n))
                              (knowledge_nodes d2)\<rparr>
               in if dbFails e DeleteChunks then (d3, Some (StoreError DeleteChunks))
                  else
                    (let d4 = d3\<lparr>chunk_rows :=
                                  filter (\<lambda>c. chunk_document_id c \<notin> set (docIdsOf d3 url))
                                    (chunk_rows d3)\<rparr>
                     in if dbFails e DeleteDocuments then (d4, Some (StoreError DeleteDocuments))
                        else if list_ex (\<lambda>c. chunk_document_id c \<in> set (docIdsOf d4 url)) (chunk_rows d4)
                             \<or> list_ex (\<lambda>n. refersTo (docIdsOf d4 url) (node_document_id n))
                                  (knowledge_nodes d4)
                             \<or> list_ex (\<lambda>x. refersTo (docIdsOf d4 url) (edge_document_id x))
                                  (knowledge_edges d4)
                        then (d4, Some (ForeignKeyViolation DeleteDocuments))
                        else (d4\<lparr>documents := filter (\<lambda>x. doc_url x \<noteq> url) (documents d4)\<rparr>,
                              None)))))"

definition DeleteURL :: "env \<Rightarrow> db \<Rightarrow> string \<Rightarrow> db \<times> error option" where
  "DeleteURL e d url =
     (if dbFails e CountQueue then (d, Some (StoreError CountQueue))
      else
        (let count = length (filter (\<lambda>q. queue_url q = url) (url_queue d)) in
         if count = 0 then (d, Some NotFound)
         else if dbFails e (UpdateQueue Deleted) then (d, Some (StoreError (UpdateQueue Deleted)))
         else
           (let d1 = setQueueStatus d url Deleted None;
                rowsAffected = length (filter (\<lambda>q. queue_url q = url) (url_queue d))
            in if dbFails e RowsAffected then (d1, Some (StoreError RowsAffected))
               else if rowsAffected = 0 then (d1, Some NoRowsUpdated)
               else deleteDependents e d1 url)))"

definition env0 :: env where
  "env0 = \<lparr>unicodeLower = (\<lambda>r. r), keyOrder = remdups, dbFails = (\<lambda>c. False),
            marshalFails = (\<lambda>p. False), unmarshalFails = (\<lambda>p. False),
            extractEntities = (\<lambda>c. []),
            extractRelationships = (\<lambda>c m. []), fetchPage = (\<lambda>u. None)\<rparr>"

definition db0 :: db where
  "db0 = \<lparr>documents = [], chunk_rows = [], knowledge_nodes = [], knowledge_edges = [],
           url_queue = [], documents_seq = 0, chunks_seq = 0, nodes_seq = 0, edges_seq = 0\<rparr>"

definition dbShared :: db where
  "dbShared = db0\<lparr>
     documents :=
       [\<lparr>doc_id = 1, doc_url = ''https://x/a'', doc_title = ''A'',
         doc_content = ''Alice Smith works at Acme Corp'', doc_embedding = []\<rparr>,
        \<lparr>doc_id = 2, doc_url = ''https://x/b'', doc_title = ''B'',
         doc_content = ''Alice Smith works at Acme Corp'', doc_embedding = []\<rparr>],
     chunk_rows :=
       [\<lparr>chunk_id = 1, chunk_document_id = 1, chunk_content = ''Alice Smith works at Acme Corp'',
         chunk_embedding = None, chunk_index = 0, start_position = 0, end_position = 30\<rparr>,
        \<lparr>chunk_id = 2, chunk_document_id = 2, chunk_content = ''Alice Smith works at Acme Corp'',
         chunk_embedding = None, chunk_index = 0, start_position = 0, end_position = 30\<rparr>],
     knowledge_nodes :=
       [\<lparr>node_id = 1, node_name = ''Alice Smith'', node_type = ''person'', node_properties = [],
         node_embedding = [], node_document_id = Some 1\<rparr>,
        \<lparr>node_id = 2, node_name = ''Acme Corp'', node_type = ''person'', node_properties = [],
         node_embedding = [], node_document_id = Some 1\<rparr>],
     knowledge_edges :=
       [\<lparr>edge_id = 1, source_id = 1, target_id = 2, relationship_type = ''works_at'',
         edge_properties = [], edge_document_id = Some 2\<rparr>],
     url_queue :=
       [\<lparr>queue_id = 1, queue_url = ''https://x/a'', queue_status = Completed,
         queue_error = None, retry_count = 0\<rparr>,
        \<lparr>queue_id = 2, queue_url = ''https://x/b'', queue_status = Completed,
         queue_error = None, retry_count = 0\<rparr>],
     documents_seq := 2, chunks_seq := 2, nodes_seq := 2, edges_seq := 2\<rparr>"

text \<open>
  Claim C6 on a state that two ingestions produce. \<open>https://x/a\<close> and \<open>https://x/b\<close>
  both say \<open>Alice Smith works at Acme Corp\<close>. The first ingestion creates the two
  nodes and the edge for document 1; the second finds the nodes (it keeps their
  \<open>document_id\<close> 1) and its upsert of the edge moves the edge to document 2.
  \<open>DeleteURL\<close> of the first URL marks the queue item deleted, deletes no edge, and
  then fails on the nodes, which the edge of document 2 still refers to: the chunk, the
  nodes and the document of the first URL remain.
\<close>

theorem DeleteURL_shared_node:
  "DeleteURL env0 dbShared ''https://x/a'' =
     (setQueueStatus dbShared ''https://x/a'' Deleted None, Some (ForeignKeyViolation DeleteNodes))
   \<and> map chunk_document_id (chunk_rows (fst (DeleteURL env0 dbShared ''https://x/a''))) = [1, 2]
   \<and> map node_document_id (knowledge_nodes (fst (DeleteURL env0 dbShared ''https://x/a'')))
       = [Some 1, Some 1]
   \<and> map doc_id (documents (fst (DeleteURL env0 dbShared ''https://x/a''))) = [1, 2]"
proof -
  have 1: "DeleteURL env0 dbShared ''https://x/a'' =
     (setQueueStatus dbShared ''https://x/a'' Deleted None, Some (ForeignKeyViolation DeleteNodes))"
    by code_simp
  show ?thesis unfolding 1 by code_simp
qed

lemma DeleteURL_NotFound_iff:
  "(snd (DeleteURL e d url) = Some NotFound) =
     (\<not> dbFails e CountQueue \<and> filter (\<lambda>q. queue_url q = url) (url_queue d) = [])"
  by (auto simp: DeleteURL_def deleteDependents_def Let_def split: if_splits)

lemma deleteDependents_complete:
  assumes "deleteDependents e d url = (d', None)"
  shows "list_all (\<lambda>c. chunk_document_id c \<notin> set (docIdsOf d url)) (chunk_rows d')
       \<and> list_all (\<lambda>n. \<not> refersTo (docIdsOf d url) (node_document_id n)) (knowledge_nodes d')
       \<and> list_all (\<lambda>x. \<not> refersTo (docIdsOf d url) (edge_document_id x)) (knowledge_edges d')
       \<and> rowsFor url d' = [] \<and> url_queue d' = url_queue d"
  using assms
  by (auto simp: deleteDependents_def Let_def docIdsOf_def rowsFor_def list_all_iff list_ex_iff
      split: if_splits)

lemma DeleteURL_complete:
  assumes "DeleteURL e d url = (d', None)"
  shows "list_all (\<lambda>c. chunk_document_id c \<notin> set (docIdsOf d url)) (chunk_rows d')
       \<and> list_all (\<lambda>n. \<not> refersTo (docIdsOf d url) (node_document_id n)) (knowledge_nodes d')
       \<and> list_all (\<lambda>x. \<not> refersTo (docIdsOf d url) (edge_document_id x)) (knowledge_edges d')
       \<and> rowsFor url d' = []
       \<and> map queue_id (url_queue d') = map queue_id (url_queue d)
       \<and> list_all (\<lambda>q. queue_url q = url \<longrightarrow> queue_status q = Deleted) (url_queue d')"
proof -
  let ?d1 = "setQueueStatus d url Deleted None"
  have dd: "deleteDependents e ?d1 url = (d', None)"
    using assms by (auto simp: DeleteURL_def Let_def split: if_splits)
  have ids: "docIdsOf ?d1 url = docIdsOf d url" by (simp add: docIdsOf_def)
  let ?upd = "\<lambda>q. if queue_url q = url then q\<lparr>queue_status := Deleted\<rparr> else q"
  have q1: "map queue_id (map ?upd qs) = map queue_id qs" for qs
    by (induction qs) simp_all
  have q2: "list_all (\<lambda>q. queue_url q = url \<longrightarrow> queue_status q = Deleted) (map ?upd qs)" for qs
    by (induction qs) simp_all
  have u: "url_queue ?d1 = map ?upd (url_queue d)" by (simp add: setQueueStatus_def)
  have q: "map queue_id (url_queue ?d1) = map queue_id (url_queue d)"
    "list_all (\<lambda>q. queue_url q = url \<longrightarrow> queue_status q = Deleted) (url_queue ?d1)"
    unfolding u using q1 q2 by blast+
  show ?thesis using deleteDependents_complete[OF dd] ids q by simp
qed


subsection \<open>A run of two ingestions\<close>

text \<open>
  The queued URL \<open>https://x/a\<close> is processed twice by \<open>ProcessURL\<close>; the page reads
  \<open>Hi\<close> with the title \<open>First\<close> at the first fetch and \<open>Yo\<close> with the title
  \<open>Second\<close> at the second.
\<close>

definition envFirst :: env where
  "envFirst = env0\<lparr>fetchPage := (\<lambda>u. Some (''First'', ''Hi''))\<rparr>"

definition envSecond :: env where
  "envSecond = env0\<lparr>fetchPage := (\<lambda>u. Some (''Second'', ''Yo''))\<rparr>"

definition dbQueued :: db where
  "dbQueued = db0\<lparr>url_queue :=
     [\<lparr>queue_id = 1, queue_url = ''https://x/a'', queue_status = Pending,
       queue_error = None, retry_count = 0\<rparr>]\<rparr>"

lemma clean_Hi_Yo: "cleanContent ''Hi'' = ''Hi''" "cleanContent ''Yo'' = ''Yo''"
  by (simp_all add: cleanContent_def ValidString_def invalidUnit_def RuneError_def keepRune_def
      EncodeRune_def TrimSpace_def isSpace_def char_of_eq_iff)

theorem reingest_same_url_witness:
  "distinct (map doc_url (documents dbQueued))
   \<and> ingest_url (FromURL ''https://x/a'') = ingest_url (FromURL ''https://x/a'')
   \<and> accepts envFirst (FromURL ''https://x/a'')
   \<and> accepts envSecond (FromURL ''https://x/a'')
   \<and> (\<exists>d1 d2 row1 row2.
           ingest envFirst dbQueued (FromURL ''https://x/a'') = Some (d1, None)
         \<and> ingest envSecond d1 (FromURL ''https://x/a'') = Some (d2, None)
         \<and> rowsFor ''https://x/a'' d1 = [row1]
         \<and> rowsFor ''https://x/a'' d2 = [row2]
         \<and> doc_id row2 = doc_id row1
         \<and> length (documents d2) = length (documents d1)
         \<and> doc_title row2 = ''Second'' \<and> doc_content row2 = ''Yo'')"
proof -
  let ?i = "FromURL ''https://x/a''"
  have u: "distinct (map doc_url (documents dbQueued))" by (simp add: dbQueued_def db0_def)
  have a1: "accepts envFirst ?i" by (simp add: envFirst_def env0_def clean_Hi_Yo)
  have a2: "accepts envSecond ?i" by (simp add: envSecond_def env0_def clean_Hi_Yo)
  obtain v where v: "embed envSecond ''Yo'' = Inr v" using embed_ok by blast
  have p: "ingestPayload envSecond ?i = Some (''Second'', ''Yo'', v)"
    using v by (simp add: fetchContent_def envSecond_def env0_def clean_Hi_Yo Let_def)
  obtain d1 r1 d2 r2 where r:
      "ingest envFirst dbQueued ?i = Some (d1, r1)" "(r1 = None) = accepts envFirst ?i"
      "ingest envSecond d1 ?i = Some (d2, r2)" "(r2 = None) = accepts envSecond ?i"
      "accepts envFirst ?i \<longrightarrow>
              (\<exists>row1 row2.
                   rowsFor (ingest_url ?i) d1 = [row1]
                 \<and> rowsFor (ingest_url ?i) d2 = [row2]
                 \<and> doc_id row2 = doc_id row1
                 \<and> length (documents d2) = length (documents d1)
                 \<and> (if accepts envSecond ?i
                    then ingestPayload envSecond ?i
                           = Some (doc_title row2, doc_content row2, doc_embedding row2)
                    else row2 = row1))"
    using reingest_same_url[of dbQueued ?i ?i envFirst envSecond, OF u refl] by blast
  obtain row1 row2 where rows: "rowsFor ''https://x/a'' d1 = [row1]"
      "rowsFor ''https://x/a'' d2 = [row2]" "doc_id row2 = doc_id row1"
      "length (documents d2) = length (documents d1)"
      "ingestPayload envSecond ?i = Some (doc_title row2, doc_content row2, doc_embedding row2)"
    using r(5) a1 a2 unfolding ingest_url.simps by (simp only: if_True) blast
  have t: "doc_title row2 = ''Second''" "doc_content row2 = ''Yo''" using rows(5) p by simp_all
  have i1: "ingest envFirst dbQueued ?i = Some (d1, None)" using r(1,2) a1 by simp
  have i2: "ingest envSecond d1 ?i = Some (d2, None)" using r(3,4) a2 by simp
  show ?thesis using u a1 a2 i1 i2 rows(1-4) t by auto
qed


section \<open>SQL pattern matching: \<open>LIKE\<close> and \<open>ILIKE\<close>\<close>

text \<open>
  PostgreSQL's \<open>LIKE\<close> on UTF-8 text: \<open>%\<close> matches any sequence of characters,
  \<open>_\<close> one character, a backslash makes the next byte literal, and a pattern that
  ends in a lone backslash is an error (\<open>None\<close>). A character is a byte and the
  continuation bytes (\<open>10xxxxxx\<close>) that follow it. \<open>Contains\<close> is
  \<open>strings.Contains\<close>, the substring test of the specification.
\<close>

datatype ltoken = Lit char | AnyOne | AnySeq

fun like_tokens :: "string \<Rightarrow> ltoken list option" where
  "like_tokens [] = Some []"
| "like_tokens (c # cs) =
     (if c = CHR 0x5C then
        (case cs of [] \<Rightarrow> None
         | x # r \<Rightarrow> map_option (\<lambda>ts. Lit x # ts) (like_tokens r))
      else
        map_option
          (\<lambda>ts. (if c = CHR ''%'' then AnySeq else if c = CHR ''_'' then AnyOne else Lit c) # ts)
          (like_tokens cs))"

definition isCont :: "char \<Rightarrow> bool" where
  "isCont c = (128 \<le> (of_char c :: nat) \<and> (of_char c :: nat) < 192)"

function like_match :: "ltoken list \<Rightarrow> string \<Rightarrow> bool" where
  "like_match [] t = (t = [])"
| "like_match (Lit c # p) [] = False"
| "like_match (Lit c # p) (x # t) = (x = c \<and> like_match p t)"
| "like_match (AnyOne # p) [] = False"
| "like_match (AnyOne # p) (x # t) = like_match p (dropWhile isCont t)"
| "like_match (AnySeq # p) [] = like_match p []"
| "like_match (AnySeq # p) (x # t) =
     (like_match p (x # t) \<or> like_match (AnySeq # p) (dropWhile isCont t))"
  by pat_completeness auto
termination
  by (relation "measures [\<lambda>(p, t). length p, \<lambda>(p, t). length t]")
     (auto simp: length_dropWhile_le less_Suc_eq_le)

definition sqlLike :: "string \<Rightarrow> string \<Rightarrow> bool option" where
  "sqlLike pattern text = map_option (\<lambda>ts. like_match ts text) (like_tokens pattern)"

definition Contains :: "string \<Rightarrow> string \<Rightarrow> bool" where
  "Contains s substr = (0 \<le> Index s substr)"

definition plainPattern :: "string \<Rightarrow> bool" where
  "plainPattern q =
     (list_all (\<lambda>c. c \<noteq> CHR ''%'' \<and> c \<noteq> CHR ''_'' \<and> c \<noteq> CHR 0x5C) q
      \<and> (case q of [] \<Rightarrow> True | c # cs \<Rightarrow> \<not> isCont c))"

lemma Contains_Nil: "Contains [] q = (q = [])"
  by (simp add: Contains_def)

lemma Index_ge: "- 1 \<le> Index s q"
  using Index_range[of s q] by simp

lemma Contains_Cons: "Contains (c # cs) q = (prefix q (c # cs) \<or> Contains cs q)"
  using Index_ge[of cs q] by (auto simp: Contains_def Let_def)

lemma like_tokens_plain:
  "list_all (\<lambda>c. c \<noteq> CHR ''%'' \<and> c \<noteq> CHR ''_'' \<and> c \<noteq> CHR 0x5C) q
     \<Longrightarrow> like_tokens (q @ ''%'') = Some (map Lit q @ [AnySeq])"
  by (induction q) simp_all

lemma like_AnySeq_all: "like_match [AnySeq] t"
proof (induction "length t" arbitrary: t rule: less_induct)
  case less
  show ?case
  proof (cases t)
    case Nil
    then show ?thesis by simp
  next
    case (Cons x r)
    have "length (dropWhile isCont r) < length t" using Cons
      by (simp add: length_dropWhile_le less_Suc_eq_le)
    then show ?thesis using less Cons by simp
  qed
qed

lemma like_literal_prefix: "like_match (map Lit q @ [AnySeq]) t = prefix q t"
proof (induction q arbitrary: t)
  case Nil
  then show ?case by (simp add: like_AnySeq_all)
next
  case (Cons c q)
  then show ?case by (cases t) auto
qed

lemma Contains_skip_cont:
  assumes "q \<noteq> []" "\<not> isCont (hd q)"
  shows "Contains (dropWhile isCont t) q = Contains t q"
proof (induction t)
  case Nil
  then show ?case by simp
next
  case (Cons x t)
  show ?case
  proof (cases "isCont x")
    case True
    have "\<not> prefix q (x # t)"
    proof
      assume "prefix q (x # t)"
      then have "hd q = x" using assms(1) by (cases q) auto
      then show False using True assms(2) by simp
    qed
    then show ?thesis using True Cons by (simp add: Contains_Cons)
  next
    case False
    then show ?thesis by simp
  qed
qed

lemma like_contains_nonempty:
  assumes "q \<noteq> []" "\<not> isCont (hd q)"
  shows "like_match (AnySeq # map Lit q @ [AnySeq]) t = Contains t q"
proof (induction "length t" arbitrary: t rule: less_induct)
  case less
  show ?case
  proof (cases t)
    case Nil
    then show ?thesis using assms(1) like_literal_prefix[of q "[]"] by (simp add: Contains_Nil)
  next
    case (Cons x r)
    have l: "length (dropWhile isCont r) < length t" using Cons
      by (simp add: length_dropWhile_le less_Suc_eq_le)
    have "like_match (AnySeq # map Lit q @ [AnySeq]) t
            = (prefix q t \<or> Contains (dropWhile isCont r) q)"
      using less[OF l] like_literal_prefix[of q t] Cons by simp
    also have "\<dots> = (prefix q t \<or> Contains r q)" using Contains_skip_cont[OF assms] by simp
    also have "\<dots> = Contains t q" using Cons by (simp add: Contains_Cons)
    finally show ?thesis .
  qed
qed

lemma Contains_empty: "Contains t []"
  by (cases t) (simp_all add: Contains_def)

lemma like_plain_substring:
  assumes "plainPattern q"
  shows "sqlLike (''%'' @ q @ ''%'') t = Some (Contains t q)"
proof -
  have toks: "like_tokens (''%'' @ q @ ''%'') = Some (AnySeq # map Lit q @ [AnySeq])"
    using like_tokens_plain[of q] assms by (simp add: plainPattern_def)
  show ?thesis
  proof (cases q)
    case Nil
    have "like_match [AnySeq, AnySeq] t"
    proof (induction "length t" arbitrary: t rule: less_induct)
      case less
      show ?case
      proof (cases t)
        case Nil
        then show ?thesis by simp
      next
        case (Cons x r)
        then show ?thesis using like_AnySeq_all[of t] by simp
      qed
    qed
    then show ?thesis using toks Nil by (simp add: sqlLike_def Contains_empty)
  next
    case (Cons c cs)
    then have "q \<noteq> []" "\<not> isCont (hd q)" using assms by (simp_all add: plainPattern_def)
    then show ?thesis using toks like_contains_nonempty[of q t] by (simp add: sqlLike_def)
  qed
qed

lemma like_wildcard_example:
  "sqlLike ''%a_c%'' ''abc'' = Some True \<and> \<not> Contains ''abc'' ''a_c''"
  by (simp add: sqlLike_def isCont_def Contains_def)

subsection \<open>\<open>LOWER\<close> and \<open>ILIKE\<close>\<close>

text \<open>
  In a UTF-8 database \<open>LOWER\<close> maps every character of the text to lower case and
  \<open>ILIKE\<close> is \<open>LIKE\<close> on the \<open>LOWER\<close> of pattern and text. The letters \<open>A\<close> to
  \<open>Z\<close> go to \<open>a\<close> to \<open>z\<close> and the other ASCII characters stay (as in the locales
  \<open>C\<close> and \<open>en_US\<close>); for the characters beyond ASCII the mapping is the one of the
  database locale, the parameter \<open>loc\<close>. \<open>asciiLower\<close> folds the ASCII letters
  only.
\<close>

definition sqlLower :: "(rune \<Rightarrow> rune) \<Rightarrow> string \<Rightarrow> string" where
  "sqlLower loc s = concat (map (\<lambda>u. EncodeRune (toLowerRune loc (fst u))) (runes s))"


definition asciiLowerChar :: "char \<Rightarrow> char" where
  "asciiLowerChar c =
     (if 65 \<le> (of_char c :: nat) \<and> (of_char c :: nat) \<le> 90
      then char_of ((of_char c :: nat) + 32) else c)"

definition asciiLower :: "string \<Rightarrow> string" where
  "asciiLower s = map asciiLowerChar s"



lemma sqlLower_ascii: "ascii s \<Longrightarrow> sqlLower loc s = asciiLower s"
proof -
  assume a: "ascii s"
  have "concat (map (\<lambda>u. EncodeRune (toLowerRune loc (fst u))) (map (\<lambda>c. (of_char c, [c])) t))
          = map asciiLowerChar t" if "ascii t" for t :: string
    using that
    by (induction t) (simp_all add: ascii_def toLowerRune_def EncodeRune_def asciiLowerChar_def)
  then show ?thesis unfolding sqlLower_def asciiLower_def runes_ascii[OF a] using a by blast
qed

section \<open>\<open>GetKnowledgeGraph\<close> (lines 1309--1422)\<close>






definition readRows :: "nat option \<Rightarrow> 'a list \<Rightarrow> 'a list" where
  "readRows rowCut rows = (case rowCut of None \<Rightarrow> rows | Some k \<Rightarrow> take k rows)"














subsection \<open>Runs of \<open>GetKnowledgeGraph\<close>\<close>

























section \<open>The hybrid query: \<open>Query\<close> (lines 109--182) and \<open>extractKeywords\<close> (185--199)\<close>

text \<open>
  \<open>StopWords\<close> is the list of \<open>config.StopWords\<close> and \<open>IsStopWord\<close> the lookup
  \<open>config.IsStopWord\<close>; \<open>Trim\<close> is \<open>strings.Trim\<close> for a cut set of ASCII
  characters, \<open>Join\<close> is \<open>strings.Join\<close>.

  The \<open>SELECT\<close> of \<open>Query\<close> is one statement. \<open>candidates\<close> are the rows of
  \<open>chunks JOIN documents\<close> that pass \<open>WHERE c.embedding <=> $1 < 0.5\<close>, each with its
  distance and its \<open>keyword_score\<close>: the operator \<open><=>\<close> of pgvector is the parameter
  \<open>distance\<close>, a chunk without embedding has no distance and is not selected,
  \<open>string_to_array($2, ' ')\<close> is \<open>Split\<close> and \<open>LOWER\<close> is \<open>sqlLower\<close>. The pattern
  \<open>'%' || LOWER(keyword) || '%'\<close> ends in \<open>%\<close> and so is never ill-formed
  (\<open>like_tokens_percent\<close>).
  \<open>ORDER BY\<close> leaves the order of rows with equal keys open: the sort of the executor
  is the parameter \<open>sortRows\<close>, and \<open>sortsRows\<close> says that its result is a
  permutation of its input in the order of \<open>rankKey\<close> (keyword score descending, then
  distance ascending). \<open>selectChunks\<close> is the statement with its \<open>LIMIT 5\<close>.

  The loop over the rows does not check \<open>rows.Err()\<close>: \<open>rowCut = Some k\<close> says that
  the driver fails after \<open>k\<close> rows, and the function returns the rows read so far
  without an error. The scores are \<open>float64\<close> values in the code; they are modelled by
  the real numbers the expressions denote.
\<close>

definition StopWords :: "string list" where
  "StopWords =
   [''the'', ''a'', ''an'', ''and'', ''or'', ''but'', ''nor'', ''yet'', ''so'', ''in'',
     ''on'', ''at'', ''to'', ''for'', ''of'', ''with'', ''by'', ''from'', ''up'',
     ''about'', ''into'', ''through'', ''during'', ''before'', ''after'', ''above'',
     ''below'', ''between'', ''among'', ''is'', ''are'', ''was'', ''were'', ''be'',
     ''been'', ''being'', ''have'', ''has'', ''had'', ''do'', ''does'', ''did'', ''will'',
     ''would'', ''could'', ''should'', ''may'', ''might'', ''can'', ''i'', ''you'', ''he'',
     ''she'', ''it'', ''we'', ''they'', ''me'', ''him'', ''her'', ''us'', ''them'', ''my'',
     ''your'', ''his'', ''its'', ''our'', ''their'', ''mine'', ''yours'', ''hers'',
     ''ours'', ''theirs'', ''this'', ''that'', ''these'', ''those'', ''very'', ''really'',
     ''quite'', ''rather'', ''too'', ''just'', ''only'', ''even'', ''still'', ''already'',
     ''now'', ''then'', ''here'', ''there'', ''where'', ''when'', ''good'', ''bad'',
     ''big'', ''small'', ''new'', ''old'', ''high'', ''low'', ''long'', ''short'',
     ''right'', ''wrong'', ''same'', ''different'', ''other'', ''another'', ''some'',
     ''any'', ''one'', ''two'', ''three'', ''first'', ''second'', ''third'', ''today'',
     ''yesterday'', ''tomorrow'', ''thing'', ''things'', ''way'', ''ways'', ''time'',
     ''times'', ''people'', ''person'', ''man'', ''woman'', ''child'', ''children'',
     ''work'', ''works'', ''life'', ''lives'', ''world'', ''worlds'', ''day'', ''days'',
     ''year'', ''years'', ''month'', ''months'', ''week'', ''weeks'', ''hour'', ''hours'',
     ''minute'', ''minutes'']"

definition IsStopWord :: "(rune \<Rightarrow> rune) \<Rightarrow> string \<Rightarrow> bool" where
  "IsStopWord tab word = (ToLower tab word \<in> set StopWords)"

definition Trim :: "string \<Rightarrow> string \<Rightarrow> string" where
  "Trim s cutset =
     dropWhile (\<lambda>c. c \<in> set cutset) (rev (dropWhile (\<lambda>c. c \<in> set cutset) (rev s)))"

definition punctuation :: string where
  "punctuation = [CHR ''.'', CHR '','', CHR ''!'', CHR ''?'', CHR '';'', CHR '':'', CHR ''('',
                  CHR '')'', CHR ''['', CHR '']'', CHR ''{'', CHR ''}'', CHR 0x27, CHR 0x22]"

fun keepKeywords :: "(rune \<Rightarrow> rune) \<Rightarrow> string list \<Rightarrow> string list" where
  "keepKeywords tab [] = []"
| "keepKeywords tab (word0 # words) =
     (let word = Trim word0 punctuation in
      if 2 < length word \<and> \<not> IsStopWord tab word then word # keepKeywords tab words
      else keepKeywords tab words)"

definition extractKeywords :: "(rune \<Rightarrow> rune) \<Rightarrow> string \<Rightarrow> string list" where
  "extractKeywords tab query = keepKeywords tab (Fields (ToLower tab query))"

fun Join :: "string list \<Rightarrow> string \<Rightarrow> string" where
  "Join [] sep = []"
| "Join [x] sep = x"
| "Join (x # y # r) sep = x @ sep @ Join (y # r) sep"

record SearchResult =
  sr_content :: string
  sr_score :: real
  sr_document_id :: int
  sr_url :: string
  sr_title :: string

record candidate =
  cand_content :: string
  cand_distance :: real
  cand_document :: Document
  cand_keyword_score :: real

definition keywordMatches :: "(rune \<Rightarrow> rune) \<Rightarrow> string \<Rightarrow> string \<Rightarrow> bool" where
  "keywordMatches loc content keyword =
     (sqlLike (''%'' @ sqlLower loc keyword @ ''%'') (sqlLower loc content) = Some True)"

definition keywordScore :: "(rune \<Rightarrow> rune) \<Rightarrow> string \<Rightarrow> string \<Rightarrow> real" where
  "keywordScore loc joined content =
     (if joined = [] then 0
      else real (length (filter (keywordMatches loc content) (Split joined (CHR '' ''))))
             / real (length (Split joined (CHR '' ''))))"

definition candidatesOf ::
  "(vector \<Rightarrow> vector \<Rightarrow> real) \<Rightarrow> (rune \<Rightarrow> rune) \<Rightarrow> db \<Rightarrow> vector \<Rightarrow> string \<Rightarrow> Chunk
     \<Rightarrow> candidate list" where
  "candidatesOf distance loc d queryEmbedding joined c =
     (case chunk_embedding c of
        None \<Rightarrow> []
      | Some v \<Rightarrow>
          if distance v queryEmbedding < 1 / 2 then
            map (\<lambda>doc. \<lparr>cand_content = chunk_content c, cand_distance = distance v queryEmbedding,
                         cand_document = doc,
                         cand_keyword_score = keywordScore loc joined (chunk_content c)\<rparr>)
              (filter (\<lambda>x. doc_id x = chunk_document_id c) (documents d))
          else [])"

definition candidates ::
  "(vector \<Rightarrow> vector \<Rightarrow> real) \<Rightarrow> (rune \<Rightarrow> rune) \<Rightarrow> db \<Rightarrow> vector \<Rightarrow> string
     \<Rightarrow> candidate list" where
  "candidates distance loc d queryEmbedding joined =
     concat (map (candidatesOf distance loc d queryEmbedding joined) (chunk_rows d))"

definition rankKey :: "candidate \<Rightarrow> real \<times> real" where
  "rankKey c = (- cand_keyword_score c, cand_distance c)"

definition sortsRows :: "(candidate list \<Rightarrow> candidate list) \<Rightarrow> candidate list \<Rightarrow> bool" where
  "sortsRows sortRows rows =
     (sorted (map rankKey (sortRows rows)) \<and> mset (sortRows rows) = mset rows)"

definition selectChunks ::
  "(vector \<Rightarrow> vector \<Rightarrow> real) \<Rightarrow> (rune \<Rightarrow> rune) \<Rightarrow> (candidate list \<Rightarrow> candidate list) \<Rightarrow> db
     \<Rightarrow> vector \<Rightarrow> string \<Rightarrow> candidate list" where
  "selectChunks distance loc sortRows d queryEmbedding joined =
     take 5 (sortRows (candidates distance loc d queryEmbedding joined))"

definition searchResult :: "candidate \<Rightarrow> SearchResult" where
  "searchResult c =
     \<lparr>sr_content = cand_content c,
      sr_score = (1 - cand_distance c) * (3 / 10) + cand_keyword_score c * (7 / 10),
      sr_document_id = doc_id (cand_document c), sr_url = doc_url (cand_document c),
      sr_title = doc_title (cand_document c)\<rparr>"

definition Query ::
  "(vector \<Rightarrow> vector \<Rightarrow> real) \<Rightarrow> (rune \<Rightarrow> rune) \<Rightarrow> (candidate list \<Rightarrow> candidate list) \<Rightarrow> env
     \<Rightarrow> db \<Rightarrow> nat option \<Rightarrow> string \<Rightarrow> error + SearchResult list" where
  "Query distance loc sortRows e d rowCut query =
     (case embed e query of
        Inl err \<Rightarrow> Inl err
      | Inr queryEmbedding \<Rightarrow>
          (let queryKeywords = extractKeywords (unicodeLower e) query in
           if dbFails e SelectChunks then Inl (StoreError SelectChunks)
           else Inr (map searchResult
                       (readRows rowCut
                          (selectChunks distance loc sortRows d queryEmbedding
                             (Join queryKeywords '' ''))))))"

text \<open>
  The words of the specification. \<open>keywordFraction\<close> is the fraction of the keywords
  whose pattern matches the chunk, \<open>substringFraction\<close> the fraction of the keywords
  that the chunk contains when both are folded to lower case, \<open>specScore\<close> the final
  score of the specification; \<open>rankedBefore\<close> is the order of the results,
  \<open>fromChunk\<close> says that a result row is a stored chunk with its document and its
  distance to the query embedding, and \<open>queryCandidates\<close> are the rows the statement
  sorts for a query.
\<close>

definition keywordFraction :: "(rune \<Rightarrow> rune) \<Rightarrow> string list \<Rightarrow> string \<Rightarrow> real" where
  "keywordFraction loc keywords content =
     (if keywords = [] then 0
      else real (length (filter (keywordMatches loc content) keywords)) / real (length keywords))"

definition substringFraction :: "(rune \<Rightarrow> rune) \<Rightarrow> string list \<Rightarrow> string \<Rightarrow> real" where
  "substringFraction loc keywords content =
     (if keywords = [] then 0
      else real (length (filter (\<lambda>k. Contains (sqlLower loc content) (sqlLower loc k)) keywords))
             / real (length keywords))"

definition specScore :: "(rune \<Rightarrow> rune) \<Rightarrow> string list \<Rightarrow> real \<Rightarrow> string \<Rightarrow> real" where
  "specScore loc keywords vectorDistance content =
     3 / 10 * (1 - vectorDistance) + 7 / 10 * substringFraction loc keywords content"

definition rankedBefore :: "candidate \<Rightarrow> candidate \<Rightarrow> bool" where
  "rankedBefore a b =
     (cand_keyword_score b < cand_keyword_score a
      \<or> (cand_keyword_score a = cand_keyword_score b \<and> cand_distance a \<le> cand_distance b))"

definition fromChunk ::
  "(vector \<Rightarrow> vector \<Rightarrow> real) \<Rightarrow> db \<Rightarrow> vector \<Rightarrow> candidate \<Rightarrow> bool" where
  "fromChunk distance d queryEmbedding r =
     list_ex (\<lambda>c. case chunk_embedding c of
                     None \<Rightarrow> False
                   | Some v \<Rightarrow>
                       cand_distance r = distance v queryEmbedding
                       \<and> cand_content r = chunk_content c
                       \<and> doc_id (cand_document r) = chunk_document_id c
                       \<and> cand_document r \<in> set (documents d))
       (chunk_rows d)"

definition queryCandidates ::
  "(vector \<Rightarrow> vector \<Rightarrow> real) \<Rightarrow> (rune \<Rightarrow> rune) \<Rightarrow> env \<Rightarrow> db \<Rightarrow> string \<Rightarrow> candidate list" where
  "queryCandidates distance loc e d query =
     (case embed e query of
        Inl err \<Rightarrow> []
      | Inr queryEmbedding \<Rightarrow>
          candidates distance loc d queryEmbedding
            (Join (extractKeywords (unicodeLower e) query) '' ''))"

lemma like_tokens_percent: "like_tokens (s @ ''%'') \<noteq> None"
proof (induction "length s" arbitrary: s rule: less_induct)
  case less
  show ?case
  proof (cases s)
    case Nil
    then show ?thesis by simp
  next
    case (Cons c cs)
    show ?thesis
    proof (cases "c = CHR 0x5C")
      case False
      have "length cs < length s" using Cons by simp
      then have "like_tokens (cs @ ''%'') \<noteq> None" using less by blast
      then show ?thesis using Cons False by auto
    next
      case True
      show ?thesis
      proof (cases cs)
        case Nil
        then show ?thesis using Cons True by simp
      next
        case (Cons x r)
        have "length r < length s" using Cons \<open>s = c # cs\<close> by simp
        then have "like_tokens (r @ ''%'') \<noteq> None" using less by blast
        then show ?thesis using Cons \<open>s = c # cs\<close> True by auto
      qed
    qed
  qed
qed

lemma byte_not_space: "128 \<le> n \<Longrightarrow> n < 256 \<Longrightarrow> char_of (n::nat) \<noteq> CHR '' ''"
proof
  assume a: "128 \<le> n" "n < 256" "char_of n = CHR '' ''"
  then have "(of_char (char_of n) :: nat) = 32" by simp
  then have "n mod 256 = 32" by simp
  then show False using a by simp
qed

lemma EncodeRune_space:
  assumes "CHR '' '' \<in> set (EncodeRune r)"
  shows "r = 32"
proof -
  have m: "128 + k mod 64 < 256" "128 \<le> 128 + k mod 64" for k :: nat
    using mod_less_divisor[of 64 k] by simp_all
  consider (a) "r \<le> 127" | (b) "127 < r \<and> r \<le> 2047"
    | (c) "2047 < r \<and> (1114111 < r \<or> (55296 \<le> r \<and> r \<le> 57343))"
    | (d) "2047 < r \<and> \<not> (1114111 < r \<or> (55296 \<le> r \<and> r \<le> 57343)) \<and> r \<le> 65535"
    | (e) "65535 < r \<and> r \<le> 1114111"
    by linarith
  then show ?thesis
  proof cases
    case a
    then have "char_of r = CHR '' ''" using assms by (simp add: EncodeRune_def)
    then have "(of_char (char_of r) :: nat) = 32" by simp
    then have "r mod 256 = 32" by simp
    then show ?thesis using a by simp
  next
    case b
    have "r div 64 < 32" using b by (simp add: less_mult_imp_div_less)
    then have 1: "char_of (192 + r div 64) \<noteq> CHR '' ''" by (intro byte_not_space) simp_all
    have 2: "char_of (128 + r mod 64) \<noteq> CHR '' ''" using m by (intro byte_not_space)
    have "EncodeRune r = [char_of (192 + r div 64), char_of (128 + r mod 64)]"
      using b by (simp add: EncodeRune_def del: char_of_quasi_inj)
    then show ?thesis using assms 1 2 by simp
  next
    case c
    have "EncodeRune r = [char_of (239::nat), char_of (191::nat), char_of (189::nat)]"
      using c unfolding EncodeRune_def by (auto simp del: char_of_quasi_inj)
    moreover have "char_of (239::nat) \<noteq> CHR '' ''" "char_of (191::nat) \<noteq> CHR '' ''"
      "char_of (189::nat) \<noteq> CHR '' ''"
      by (intro byte_not_space; simp)+
    ultimately show ?thesis using assms by simp
  next
    case d
    have "r div 4096 < 16" using d by (simp add: less_mult_imp_div_less)
    then have 1: "char_of (224 + r div 4096) \<noteq> CHR '' ''" by (intro byte_not_space) simp_all
    have 2: "char_of (128 + (r div 64) mod 64) \<noteq> CHR '' ''" using m by (intro byte_not_space)
    have 3: "char_of (128 + r mod 64) \<noteq> CHR '' ''" using m by (intro byte_not_space)
    have "EncodeRune r = [char_of (224 + r div 4096), char_of (128 + (r div 64) mod 64),
                          char_of (128 + r mod 64)]"
      using d unfolding EncodeRune_def by (auto simp del: char_of_quasi_inj)
    then show ?thesis using assms 1 2 3 by simp
  next
    case e
    have "r div 262144 < 5" using e by (simp add: less_mult_imp_div_less)
    then have 1: "char_of (240 + r div 262144) \<noteq> CHR '' ''" by (intro byte_not_space) simp_all
    have 2: "char_of (128 + (r div 4096) mod 64) \<noteq> CHR '' ''" using m by (intro byte_not_space)
    have 3: "char_of (128 + (r div 64) mod 64) \<noteq> CHR '' ''" using m by (intro byte_not_space)
    have 4: "char_of (128 + r mod 64) \<noteq> CHR '' ''" using m by (intro byte_not_space)
    have "EncodeRune r = [char_of (240 + r div 262144), char_of (128 + (r div 4096) mod 64),
                          char_of (128 + (r div 64) mod 64), char_of (128 + r mod 64)]"
      using e unfolding EncodeRune_def by (auto simp del: char_of_quasi_inj)
    then show ?thesis using assms 1 2 3 4 by simp
  qed
qed

lemma runes_member:
  "u \<in> set (runes s) \<Longrightarrow>
     \<exists>c cs. u = (fst (DecodeRuneInString (c # cs)),
                 take (snd (DecodeRuneInString (c # cs))) (c # cs))"
proof (induction s rule: runes.induct)
  case 1
  then show ?case by simp
next
  case (2 c cs)
  from "2.prems" consider
      "u = (fst (DecodeRuneInString (c # cs)), take (snd (DecodeRuneInString (c # cs))) (c # cs))"
    | "u \<in> set (runes (drop (snd (DecodeRuneInString (c # cs))) (c # cs)))"
    by (auto simp: Let_def simp del: DecodeRuneInString.simps)
  then show ?case
  proof cases
    case 1
    then show ?thesis by blast
  next
    case 2
    then show ?thesis using "2.IH"[OF refl] by blast
  qed
qed

lemma unit_space:
  assumes "u \<in> set (runes s)" "CHR '' '' \<in> set (snd u)"
  shows "isSpace (fst u)"
proof -
  from runes_units[OF assms(1)] show ?thesis
  proof
    assume v: "vunit u"
    then have "EncodeRune (fst u) = snd u" by (simp add: vunit_def)
    then have "fst u = 32" using EncodeRune_space[of "fst u"] assms(2) by simp
    then show ?thesis by (simp add: isSpace_def)
  next
    assume i: "invalidUnit u"
    obtain c cs where u: "u = (fst (DecodeRuneInString (c # cs)),
                 take (snd (DecodeRuneInString (c # cs))) (c # cs))"
      using runes_member[OF assms(1)] by blast
    have w: "0 < snd (DecodeRuneInString (c # cs))" by (rule decode_width_pos)
    have l: "length (snd u) = 1" "fst u = RuneError" using i by (simp_all add: invalidUnit_def)
    obtain w' where w': "snd (DecodeRuneInString (c # cs)) = Suc w'"
      using w by (cases "snd (DecodeRuneInString (c # cs))") simp_all
    have sc: "snd u = c # take w' cs" using u w' by simp
    then have "length (take w' cs) = 0" using l(1) by simp
    then have "take w' cs = []" by (simp only: length_0_conv)
    then have su: "snd u = [c]" using sc by simp
    then have "c = CHR '' ''" using assms(2) by simp
    then have "fst (DecodeRuneInString (c # cs)) = 32" by simp
    then show ?thesis using u l(2) by (simp add: RuneError_def)
  qed
qed

lemma fieldsAcc_bytes:
  "w \<in> set (fieldsAcc us cur) \<Longrightarrow>
     w \<noteq> [] \<and> set w \<subseteq> set cur \<union> (\<Union>u \<in> {u \<in> set us. \<not> isSpace (fst u)}. set (snd u))"
proof (induction us arbitrary: cur)
  case Nil
  then show ?case by (auto split: if_splits)
next
  case (Cons u us)
  show ?case
  proof (cases "isSpace (fst u)")
    case True
    then show ?thesis using Cons.prems Cons.IH[of "[]"] by (auto split: if_splits)
  next
    case False
    then have "w \<in> set (fieldsAcc us (cur @ snd u))" using Cons.prems by simp
    then show ?thesis using Cons.IH[of "cur @ snd u"] False by auto
  qed
qed

lemma Fields_no_space: "w \<in> set (Fields s) \<Longrightarrow> w \<noteq> [] \<and> CHR '' '' \<notin> set w"
proof -
  assume a: "w \<in> set (Fields s)"
  then have b: "w \<noteq> []"
      "set w \<subseteq> (\<Union>u \<in> {u \<in> set (runes s). \<not> isSpace (fst u)}. set (snd u))"
    using fieldsAcc_bytes[of w "runes s" "[]"] by (simp_all add: Fields_def)
  have "CHR '' '' \<notin> set w"
  proof
    assume "CHR '' '' \<in> set w"
    then obtain u where "u \<in> set (runes s)" "\<not> isSpace (fst u)" "CHR '' '' \<in> set (snd u)"
      using b(2) by auto
    then show False using unit_space by blast
  qed
  then show ?thesis using b(1) by simp
qed

lemma Trim_subset: "set (Trim s cutset) \<subseteq> set s"
proof -
  have "set (Trim s cutset) \<subseteq> set (rev (dropWhile (\<lambda>c. c \<in> set cutset) (rev s)))"
    unfolding Trim_def using set_dropWhileD by fastforce
  also have "\<dots> \<subseteq> set s" using set_dropWhileD by fastforce
  finally show ?thesis .
qed

lemma keepKeywords_props:
  "k \<in> set (keepKeywords tab ws) \<Longrightarrow> \<exists>w \<in> set ws. k = Trim w punctuation \<and> 2 < length k"
  by (induction ws) (auto simp: Let_def split: if_splits)

lemma keywords_no_space:
  assumes "k \<in> set (extractKeywords tab query)"
  shows "k \<noteq> [] \<and> CHR '' '' \<notin> set k"
proof -
  obtain w where w: "w \<in> set (Fields (ToLower tab query))" "k = Trim w punctuation" "2 < length k"
    using keepKeywords_props assms unfolding extractKeywords_def by blast
  have "CHR '' '' \<notin> set w" using Fields_no_space[OF w(1)] by simp
  then have "CHR '' '' \<notin> set k" using Trim_subset[of w punctuation] w(2) by auto
  moreover have "k \<noteq> []" using w(3) by auto
  ultimately show ?thesis by simp
qed

lemma Split_Join:
  assumes "kws \<noteq> []" "\<forall>k \<in> set kws. sep \<notin> set k"
  shows "Split (Join kws [sep]) sep = kws"
  using assms
proof (induction kws)
  case Nil
  then show ?case by simp
next
  case (Cons x r)
  show ?case
  proof (cases r)
    case Nil
    then show ?thesis using Cons.prems Split_none[of sep x] by simp
  next
    case (Cons y r')
    have ih: "Split (Join r [sep]) sep = r" using Cons.IH Cons.prems Cons by simp
    have "Split (x @ sep # Join r [sep]) sep = x # Split (Join r [sep]) sep"
      using Cons.prems(2) by (intro Split_at) simp
    then show ?thesis using ih Cons by simp
  qed
qed

lemma Join_empty:
  assumes "\<forall>k \<in> set kws. k \<noteq> []"
  shows "(Join kws sep = []) = (kws = [])"
  using assms by (induction kws sep rule: Join.induct) simp_all

lemma keywordScore_keywords:
  "keywordScore loc (Join (extractKeywords tab query) '' '') content
     = keywordFraction loc (extractKeywords tab query) content"
proof (cases "extractKeywords tab query = []")
  case True
  then show ?thesis by (simp add: keywordScore_def keywordFraction_def)
next
  case False
  have ns: "\<forall>k \<in> set (extractKeywords tab query). CHR '' '' \<notin> set k"
    and ne: "\<forall>k \<in> set (extractKeywords tab query). k \<noteq> []"
    using keywords_no_space by blast+
  have s: "Split (Join (extractKeywords tab query) '' '') (CHR '' '') = extractKeywords tab query"
    using Split_Join[OF False ns] by simp
  have j: "Join (extractKeywords tab query) '' '' \<noteq> []" using Join_empty[OF ne] False by simp
  show ?thesis unfolding keywordScore_def keywordFraction_def s using j False by simp
qed

lemma keywordFraction_plain:
  assumes "list_all (\<lambda>k. plainPattern (sqlLower loc k)) keywords"
  shows "keywordFraction loc keywords content = substringFraction loc keywords content"
proof -
  have "filter (keywordMatches loc content) keywords
          = filter (\<lambda>k. Contains (sqlLower loc content) (sqlLower loc k)) keywords"
    using assms like_plain_substring
    by (intro filter_cong) (auto simp: keywordMatches_def list_all_iff)
  then show ?thesis by (simp add: keywordFraction_def substringFraction_def)
qed

lemma candidates_member:
  assumes "r \<in> set (candidates distance loc d qe joined)"
  shows "fromChunk distance d qe r \<and> cand_distance r < 1 / 2
         \<and> cand_keyword_score r = keywordScore loc joined (cand_content r)"
proof -
  obtain c where c: "c \<in> set (chunk_rows d)" "r \<in> set (candidatesOf distance loc d qe joined c)"
    using assms by (auto simp: candidates_def)
  obtain v where v: "chunk_embedding c = Some v"
    using c(2) by (cases "chunk_embedding c") (auto simp: candidatesOf_def)
  have lt: "distance v qe < 1 / 2"
    using c(2) v by (auto simp: candidatesOf_def split: if_splits)
  obtain doc where doc: "doc \<in> set (documents d)" "doc_id doc = chunk_document_id c"
      "r = \<lparr>cand_content = chunk_content c, cand_distance = distance v qe, cand_document = doc,
            cand_keyword_score = keywordScore loc joined (chunk_content c)\<rparr>"
    using c(2) v lt by (auto simp: candidatesOf_def)
  have "fromChunk distance d qe r"
    unfolding fromChunk_def list_ex_iff using c(1) v doc by (intro bexI[of _ c]) simp_all
  then show ?thesis using doc(3) lt by simp
qed

lemma rankKey_le: "(rankKey a \<le> rankKey b) = rankedBefore a b"
  by (auto simp: rankKey_def rankedBefore_def less_eq_prod_def)

lemma sorted_rows:
  assumes "sortsRows sortRows xs"
  shows "sorted_wrt rankedBefore (readRows rowCut (take n (sortRows xs)))"
proof -
  have "sorted (map rankKey (sortRows xs))" using assms by (simp add: sortsRows_def)
  then have "sorted_wrt (\<lambda>a b. rankKey a \<le> rankKey b) (sortRows xs)"
    by (simp add: sorted_map)
  then have "sorted_wrt rankedBefore (sortRows xs)"
    by (simp add: rankKey_le)
  then have t: "sorted_wrt rankedBefore (take n (sortRows xs))" by (rule sorted_wrt_take)
  show ?thesis
  proof (cases rowCut)
    case None
    then show ?thesis using t by (simp add: readRows_def)
  next
    case (Some k)
    have "sorted_wrt rankedBefore (take k (take n (sortRows xs)))" using t by (rule sorted_wrt_take)
    then show ?thesis unfolding readRows_def Some by simp
  qed
qed

lemma set_rows:
  assumes "sortsRows sortRows xs"
  shows "set (readRows rowCut (take n (sortRows xs))) \<subseteq> set xs"
proof -
  have "set (sortRows xs) = set xs" using assms mset_eq_setD by (auto simp: sortsRows_def)
  moreover have "set (readRows rowCut (take n (sortRows xs))) \<subseteq> set (sortRows xs)"
    by (cases rowCut) (auto simp: readRows_def dest: in_set_takeD)
  ultimately show ?thesis by simp
qed

lemma length_rows: "length (readRows rowCut (take 5 xs)) \<le> 5"
  by (cases rowCut) (simp_all add: readRows_def)

lemma sortsRows_sort_key: "sortsRows (sort_key rankKey) xs"
  by (simp add: sortsRows_def)

text \<open>
  Claim C4, as amended: a \<open>Query\<close> that returns no error returns the rows read from the
  statement, at most 5. They are in the order keyword score descending, then distance
  ascending; each is a stored chunk with its document whose distance to the query
  embedding is below \<open>0.5\<close> (a prefix of the sorted candidates); its score is
  \<open>0.3 * (1 - distance) + 0.7 *\<close> the fraction of the query keywords whose pattern
  \<open>%keyword%\<close> matches the chunk under \<open>LIKE\<close>, both in lower case. When no folded
  keyword holds \<open>%\<close>, \<open>_\<close> or a backslash, that is the score of the specification:
  the fraction of the keywords that the folded chunk contains.
\<close>

theorem Query_result:
  assumes "Query distance loc sortRows e d rowCut query = Inr results"
      and "sortsRows sortRows (queryCandidates distance loc e d query)"
  shows "\<exists>queryEmbedding rows.
           embed e query = Inr queryEmbedding
         \<and> rows = readRows rowCut
                    (selectChunks distance loc sortRows d queryEmbedding
                       (Join (extractKeywords (unicodeLower e) query) '' ''))
         \<and> results = map searchResult rows
         \<and> length results \<le> 5
         \<and> sorted_wrt rankedBefore rows
         \<and> list_all (\<lambda>r. fromChunk distance d queryEmbedding r \<and> cand_distance r < 1 / 2) rows
         \<and> list_all (\<lambda>r. sr_score (searchResult r)
                            = 3 / 10 * (1 - cand_distance r)
                              + 7 / 10 * keywordFraction loc
                                           (extractKeywords (unicodeLower e) query) (cand_content r))
              rows
         \<and> (list_all (\<lambda>k. plainPattern (sqlLower loc k)) (extractKeywords (unicodeLower e) query) \<longrightarrow>
              list_all (\<lambda>r. sr_score (searchResult r)
                            = specScore loc (extractKeywords (unicodeLower e) query)
                                (cand_distance r) (cand_content r))
                rows)"
proof -
  obtain qe where qe: "embed e query = Inr qe" using embed_ok by blast
  let ?kws = "extractKeywords (unicodeLower e) query"
  let ?cands = "candidates distance loc d qe (Join ?kws '' '')"
  let ?rows = "readRows rowCut (selectChunks distance loc sortRows d qe (Join ?kws '' ''))"
  have srt0: "sortsRows sortRows ?cands" using assms(2) qe by (simp add: queryCandidates_def)
  have res: "results = map searchResult ?rows"
    using assms(1) qe by (auto simp: Query_def Let_def split: if_splits)
  have len: "length results \<le> 5" unfolding res selectChunks_def using length_rows by simp
  have srt: "sorted_wrt rankedBefore ?rows" unfolding selectChunks_def using srt0 by (rule sorted_rows)
  have sub: "set ?rows \<subseteq> set ?cands" unfolding selectChunks_def using srt0 by (rule set_rows)
  have mem: "list_all (\<lambda>r. fromChunk distance d qe r \<and> cand_distance r < 1 / 2) ?rows"
    using sub candidates_member unfolding list_all_iff by blast
  have kw: "cand_keyword_score r = keywordFraction loc ?kws (cand_content r)"
    if "r \<in> set ?rows" for r
    using that sub candidates_member[of r distance loc d qe "Join ?kws '' ''"]
      keywordScore_keywords[of loc "unicodeLower e" query "cand_content r"] by auto
  have sc: "list_all (\<lambda>r. sr_score (searchResult r)
                            = 3 / 10 * (1 - cand_distance r)
                              + 7 / 10 * keywordFraction loc ?kws (cand_content r)) ?rows"
  proof -
    have "sr_score (searchResult r)
            = 3 / 10 * (1 - cand_distance r) + 7 / 10 * keywordFraction loc ?kws (cand_content r)"
      if "r \<in> set ?rows" for r
    proof -
      have "sr_score (searchResult r)
              = (1 - cand_distance r) * (3 / 10) + cand_keyword_score r * (7 / 10)"
        by (simp add: searchResult_def)
      also have "\<dots> = 3 / 10 * (1 - cand_distance r) + 7 / 10 * cand_keyword_score r"
        by (simp only: mult.commute)
      finally show ?thesis using kw[OF that] by simp
    qed
    then show ?thesis unfolding list_all_iff by blast
  qed
  have pl: "list_all (\<lambda>k. plainPattern (sqlLower loc k)) ?kws \<longrightarrow>
              list_all (\<lambda>r. sr_score (searchResult r)
                            = specScore loc ?kws (cand_distance r) (cand_content r)) ?rows"
  proof
    assume a: "list_all (\<lambda>k. plainPattern (sqlLower loc k)) ?kws"
    have eq: "keywordFraction loc ?kws c = substringFraction loc ?kws c" for c
      using a by (rule keywordFraction_plain)
    show "list_all (\<lambda>r. sr_score (searchResult r)
                            = specScore loc ?kws (cand_distance r) (cand_content r)) ?rows"
      using sc unfolding eq specScore_def .
  qed
  show ?thesis using qe res len srt mem sc pl by blast
qed

subsection \<open>Runs of \<open>Query\<close>\<close>

text \<open>
  \<open>dbQuery\<close> is the empty database after \<open>ProcessDocument\<close> has ingested the text
  \<open>ABC\<close>: one document and one chunk, both with the embedding of \<open>ABC\<close>.
  \<open>Query_eval\<close> gives the result of a query with one keyword that matches the chunk,
  for every distance that puts the chunk below the threshold: the score is
  \<open>(1 - distance) * 0.3 + 0.7\<close>. The runs below take \<open>zeroDistance\<close>, under which
  every chunk is at distance 0 from the query.
\<close>

definition reqABC :: ProcessDocumentRequest where
  "reqABC = \<lparr>req_url = ''https://x/a'', req_title = ''A'', req_content = ''ABC''\<rparr>"

definition dbQuery :: db where
  "dbQuery = (case ProcessDocument env0 db0 reqABC of None \<Rightarrow> db0 | Some r \<Rightarrow> fst r)"

definition zeroDistance :: "vector \<Rightarrow> vector \<Rightarrow> real" where
  "zeroDistance a b = 0"

definition resultABC :: SearchResult where
  "resultABC = \<lparr>sr_content = ''ABC'', sr_score = 1, sr_document_id = 1,
                sr_url = ''https://x/a'', sr_title = ''A''\<rparr>"

lemma clean_ABC: "cleanContent ''ABC'' = ''ABC''"
  by (simp add: cleanContent_def ValidString_def invalidUnit_def RuneError_def keepRune_def
      EncodeRune_def TrimSpace_def isSpace_def char_of_eq_iff)

lemma chunkInfos_ABC:
  "chunkInfos ''ABC'' =
     Some [\<lparr>Content = ''ABC'', ChunkIndex = 0, StartPosition = 0, EndPosition = 3\<rparr>]"
proof -
  have t: "TrimSpace ''ABC'' = ''ABC''" by (simp add: TrimSpace_def isSpace_def)
  have s: "chunkStep ''ABC'' \<lparr>chunks = [], currentChunk = [], currentStart = 0, chunkIndex = 0\<rparr> ''ABC''
             = Some \<lparr>chunks = [], currentChunk = ''ABC'', currentStart = 0, chunkIndex = 0\<rparr>"
    by (simp add: chunkStep_def t sliceFrom_def len_def Let_def)
  show ?thesis
    by (simp add: chunkInfos_def s flushChunk_def sliceFrom_def len_def Let_def)
qed

lemma dbQuery_rows:
  assumes "embed env0 ''ABC'' = Inr v"
  shows "documents dbQuery =
           [\<lparr>doc_id = 1, doc_url = ''https://x/a'', doc_title = ''A'', doc_content = ''ABC'',
             doc_embedding = v\<rparr>]"
    and "chunk_rows dbQuery =
           [\<lparr>chunk_id = 1, chunk_document_id = 1, chunk_content = ''ABC'',
             chunk_embedding = Some v, chunk_index = 0, start_position = 0, end_position = 3\<rparr>]"
proof -
  have "ProcessDocument env0 db0 reqABC =
          Some (db0\<lparr>documents :=
                       [\<lparr>doc_id = 1, doc_url = ''https://x/a'', doc_title = ''A'',
                         doc_content = ''ABC'', doc_embedding = v\<rparr>],
                     documents_seq := 1,
                     chunk_rows :=
                       [\<lparr>chunk_id = 1, chunk_document_id = 1, chunk_content = ''ABC'',
                         chunk_embedding = Some v, chunk_index = 0, start_position = 0,
                         end_position = 3\<rparr>],
                     chunks_seq := 1\<rparr>, None)"
    unfolding ProcessDocument_def reqABC_def
    using assms
    by (simp add: clean_ABC Let_def env0_def db0_def upsertDocument_def chunkDocument_def
        chunkInfos_ABC insertChunk_def document_ids_def ExtractEntitiesAndRelations_def)
  then show "documents dbQuery =
           [\<lparr>doc_id = 1, doc_url = ''https://x/a'', doc_title = ''A'', doc_content = ''ABC'',
             doc_embedding = v\<rparr>]"
    and "chunk_rows dbQuery =
           [\<lparr>chunk_id = 1, chunk_document_id = 1, chunk_content = ''ABC'',
             chunk_embedding = Some v, chunk_index = 0, start_position = 0, end_position = 3\<rparr>]"
    by (simp_all add: dbQuery_def)
qed

lemma lower_simple: "ToLower (\<lambda>r. r) ''a_c'' = ''a_c''" "ToLower (\<lambda>r. r) ''abc'' = ''abc''"
  by (simp_all add: ToLower_def toLowerRune_def EncodeRune_def char_of_eq_iff)

lemma fields_simple: "Fields ''a_c'' = [''a_c'']" "Fields ''abc'' = [''abc'']"
  by (simp_all add: Fields_def isSpace_def)

lemma trim_simple: "Trim ''a_c'' punctuation = ''a_c''" "Trim ''abc'' punctuation = ''abc''"
  by (simp_all add: Trim_def punctuation_def)

lemma stop_simple: "\<not> IsStopWord (\<lambda>r. r) ''a_c''" "\<not> IsStopWord (\<lambda>r. r) ''abc''"
  unfolding IsStopWord_def lower_simple by (simp_all add: StopWords_def)

lemma keywords_simple:
  "extractKeywords (unicodeLower env0) ''a_c'' = [''a_c'']"
  "extractKeywords (unicodeLower env0) ''abc'' = [''abc'']"
  unfolding extractKeywords_def env0_def
  by (simp_all add: lower_simple fields_simple trim_simple stop_simple Let_def)

lemma sqlLower_simple:
  "sqlLower loc ''ABC'' = ''abc''" "sqlLower loc ''abc'' = ''abc''" "sqlLower loc ''a_c'' = ''a_c''"
proof -
  have a: "ascii ''ABC''" "ascii ''abc''" "ascii ''a_c''" by (simp_all add: ascii_def)
  show "sqlLower loc ''ABC'' = ''abc''" "sqlLower loc ''abc'' = ''abc''"
       "sqlLower loc ''a_c'' = ''a_c''"
    unfolding sqlLower_ascii[OF a(1)] sqlLower_ascii[OF a(2)] sqlLower_ascii[OF a(3)]
    by (simp_all add: asciiLower_def asciiLowerChar_def char_of_eq_iff)
qed

lemma score_wild: "keywordScore loc ''a_c'' ''ABC'' = 1"
  by (simp add: keywordScore_def keywordMatches_def sqlLower_simple sqlLike_def isCont_def)

lemma score_abc: "keywordScore loc ''abc'' ''ABC'' = 1"
  by (simp add: keywordScore_def keywordMatches_def sqlLower_simple sqlLike_def isCont_def)

lemma Query_eval:
  assumes "extractKeywords (unicodeLower env0) q = [k]" "keywordScore loc k ''ABC'' = 1"
      and "embed env0 q = Inr qe" "embed env0 ''ABC'' = Inr v" "distance v qe < 1 / 2"
  shows "Query distance loc (sort_key rankKey) env0 dbQuery None q =
           Inr [\<lparr>sr_content = ''ABC'', sr_score = (1 - distance v qe) * (3 / 10) + 7 / 10,
                 sr_document_id = 1, sr_url = ''https://x/a'', sr_title = ''A''\<rparr>]"
proof -
  note rows = dbQuery_rows[OF assms(4)]
  have c: "candidates distance loc dbQuery qe k =
             [\<lparr>cand_content = ''ABC'', cand_distance = distance v qe,
               cand_document = \<lparr>doc_id = 1, doc_url = ''https://x/a'', doc_title = ''A'',
                                 doc_content = ''ABC'', doc_embedding = v\<rparr>,
               cand_keyword_score = 1\<rparr>]"
    using assms(5) by (simp add: candidates_def candidatesOf_def rows assms(2))
  have nf: "\<not> dbFails env0 SelectChunks" by (simp add: env0_def)
  show ?thesis
    unfolding Query_def assms(3) using nf assms(1) c
    by (simp add: Let_def selectChunks_def readRows_def searchResult_def)
qed

lemma Query_zero:
  assumes "extractKeywords (unicodeLower env0) q = [k]" "keywordScore loc k ''ABC'' = 1"
  shows "Query zeroDistance loc (sort_key rankKey) env0 dbQuery None q = Inr [resultABC]"
proof -
  obtain qe where qe: "embed env0 q = Inr qe" using embed_ok by blast
  obtain v where v: "embed env0 ''ABC'' = Inr v" using embed_ok by blast
  have z: "zeroDistance v qe < 1 / 2" by (simp add: zeroDistance_def)
  show ?thesis
    using Query_eval[of q k loc qe v zeroDistance, OF assms qe v z]
    by (simp add: zeroDistance_def resultABC_def)
qed

theorem Query_result_witness:
  "Query zeroDistance (\<lambda>r. r) (sort_key rankKey) env0 dbQuery None ''abc'' = Inr [resultABC]
   \<and> sortsRows (sort_key rankKey) (queryCandidates zeroDistance (\<lambda>r. r) env0 dbQuery ''abc'')
   \<and> list_all (\<lambda>k. plainPattern (sqlLower (\<lambda>r. r) k)) (extractKeywords (unicodeLower env0) ''abc'')
   \<and> (\<exists>queryEmbedding rows.
           embed env0 ''abc'' = Inr queryEmbedding
         \<and> rows = readRows None
                    (selectChunks zeroDistance (\<lambda>r. r) (sort_key rankKey) dbQuery queryEmbedding
                       (Join (extractKeywords (unicodeLower env0) ''abc'') '' ''))
         \<and> [resultABC] = map searchResult rows
         \<and> length [resultABC] \<le> 5
         \<and> sorted_wrt rankedBefore rows
         \<and> list_all (\<lambda>r. fromChunk zeroDistance dbQuery queryEmbedding r \<and> cand_distance r < 1 / 2)
              rows
         \<and> list_all (\<lambda>r. sr_score (searchResult r)
                            = specScore (\<lambda>r. r) (extractKeywords (unicodeLower env0) ''abc'')
                                (cand_distance r) (cand_content r))
              rows)
   \<and> specScore (\<lambda>r. r) (extractKeywords (unicodeLower env0) ''abc'') 0 ''ABC'' = 1"
proof -
  have 1: "Query zeroDistance (\<lambda>r. r) (sort_key rankKey) env0 dbQuery None ''abc'' = Inr [resultABC]"
    using keywords_simple(2) score_abc by (rule Query_zero)
  have 2: "sortsRows (sort_key rankKey) (queryCandidates zeroDistance (\<lambda>r. r) env0 dbQuery ''abc'')"
    by (rule sortsRows_sort_key)
  have 3: "list_all (\<lambda>k. plainPattern (sqlLower (\<lambda>r. r) k)) (extractKeywords (unicodeLower env0) ''abc'')"
    unfolding keywords_simple by (simp add: sqlLower_simple plainPattern_def isCont_def)
  have 4: "specScore (\<lambda>r. r) (extractKeywords (unicodeLower env0) ''abc'') 0 ''ABC'' = 1"
    unfolding keywords_simple
    by (simp add: specScore_def substringFraction_def sqlLower_simple Contains_def)
  from Query_result[OF 1 2] obtain qe rows where r:
      "embed env0 ''abc'' = Inr qe"
      "rows = readRows None
                (selectChunks zeroDistance (\<lambda>r. r) (sort_key rankKey) dbQuery qe
                   (Join (extractKeywords (unicodeLower env0) ''abc'') '' ''))"
      "[resultABC] = map searchResult rows"
      "length [resultABC] \<le> 5"
      "sorted_wrt rankedBefore rows"
      "list_all (\<lambda>r. fromChunk zeroDistance dbQuery qe r \<and> cand_distance r < 1 / 2) rows"
      and imp:
      "list_all (\<lambda>k. plainPattern (sqlLower (\<lambda>r. r) k)) (extractKeywords (unicodeLower env0) ''abc'') \<longrightarrow>
         list_all (\<lambda>r. sr_score (searchResult r)
                            = specScore (\<lambda>r. r) (extractKeywords (unicodeLower env0) ''abc'')
                                (cand_distance r) (cand_content r))
           rows"
    by (elim exE conjE)
  have s: "list_all (\<lambda>r. sr_score (searchResult r)
                            = specScore (\<lambda>r. r) (extractKeywords (unicodeLower env0) ''abc'')
                                (cand_distance r) (cand_content r))
           rows"
    using imp 3 by (rule mp)
  have ex: "\<exists>queryEmbedding rows.
           embed env0 ''abc'' = Inr queryEmbedding
         \<and> rows = readRows None
                    (selectChunks zeroDistance (\<lambda>r. r) (sort_key rankKey) dbQuery queryEmbedding
                       (Join (extractKeywords (unicodeLower env0) ''abc'') '' ''))
         \<and> [resultABC] = map searchResult rows
         \<and> length [resultABC] \<le> 5
         \<and> sorted_wrt rankedBefore rows
         \<and> list_all (\<lambda>r. fromChunk zeroDistance dbQuery queryEmbedding r \<and> cand_distance r < 1 / 2)
              rows
         \<and> list_all (\<lambda>r. sr_score (searchResult r)
                            = specScore (\<lambda>r. r) (extractKeywords (unicodeLower env0) ''abc'')
                                (cand_distance r) (cand_content r))
              rows"
    using r s by (intro exI[of _ qe] exI[of _ rows] conjI)
  show ?thesis using 1 2 3 ex 4 by (intro conjI)
qed

text \<open>
  Claim C4, as stated, fails: a keyword is a pattern. For the query \<open>a_c\<close> the chunk
  \<open>ABC\<close> gets the keyword score 1, although it does not contain \<open>a_c\<close> in any
  case. At distance 0 its final score is 1, where the score of the specification is
  \<open>0.3\<close>.
\<close>

theorem Query_wildcard_counterexample:
  "Query zeroDistance (\<lambda>r. r) (sort_key rankKey) env0 dbQuery None ''a_c'' = Inr [resultABC]
   \<and> sr_score resultABC = 1
   \<and> extractKeywords (unicodeLower env0) ''a_c'' = [''a_c'']
   \<and> \<not> Contains (asciiLower ''ABC'') (asciiLower ''a_c'')
   \<and> specScore (\<lambda>r. r) (extractKeywords (unicodeLower env0) ''a_c'') 0 ''ABC'' = 3 / 10"
proof -
  have 1: "Query zeroDistance (\<lambda>r. r) (sort_key rankKey) env0 dbQuery None ''a_c'' = Inr [resultABC]"
    using keywords_simple(1) score_wild by (rule Query_zero)
  have l: "asciiLower ''ABC'' = ''abc''" "asciiLower ''a_c'' = ''a_c''"
    by (simp_all add: asciiLower_def asciiLowerChar_def char_of_eq_iff)
  have 2: "\<not> Contains (asciiLower ''ABC'') (asciiLower ''a_c'')"
    by (simp add: l Contains_def)
  have 3: "specScore (\<lambda>r. r) (extractKeywords (unicodeLower env0) ''a_c'') 0 ''ABC'' = 3 / 10"
    unfolding keywords_simple
    by (simp add: specScore_def substringFraction_def sqlLower_simple Contains_def)
  show ?thesis using 1 2 3 keywords_simple(1) by (simp add: resultABC_def)
qed

end
